theory Spec2Isabelle
  imports Main "HOL-Library.AList" "HOL-Library.Sublist"
begin

section \<open>Python values used by the HTTP client\<close>

text \<open>
  The client of \<^verbatim>\<open>gns3/http_client.py\<close> works on Python \<^verbatim>\<open>str\<close> and \<^verbatim>\<open>bytes\<close>
  values, on the values produced by the \<^verbatim>\<open>json\<close> module and on a Qt network reply.

  A \<^verbatim>\<open>bytes\<close> value is a \<open>string\<close> (a list of 8-bit characters).  A \<^verbatim>\<open>str\<close> value is
  the \<open>string\<close> holding its UTF-8 encoding (an unpaired surrogate, which a Python
  \<^verbatim>\<open>str\<close> may hold, is written as the three bytes its code point would take).  So
  \<^verbatim>\<open>bytes.decode("utf-8")\<close> checks well-formedness and returns the same bytes,
  \<^verbatim>\<open>str.encode()\<close> returns them unchanged, and \<^verbatim>\<open>len\<close> of a \<^verbatim>\<open>str\<close> counts code
  points, not bytes.
\<close>

subsection \<open>Characters and stripping\<close>

definition byte :: "char \<Rightarrow> nat" where
  "byte c = of_char c"

definition is_digit :: "char \<Rightarrow> bool" where
  "is_digit c = (c \<in> set ''0123456789'')"

definition digit_val :: "char \<Rightarrow> nat" where
  "digit_val c = byte c - 48"

definition digit_char :: "nat \<Rightarrow> char" where
  "digit_char n = ''0123456789'' ! n"

text \<open>The characters of \<^verbatim>\<open>" \r\n\t"\<close>: the whitespace of the JSON decoder and of
  the \<^verbatim>\<open>lstrip\<close> call of the streaming decoder.\<close>

definition is_ws :: "char \<Rightarrow> bool" where
  "is_ws c = (c = CHR '' '' \<or> c = CHR 0x0D \<or> c = CHR 0x0A \<or> c = CHR 0x09)"

definition skip_ws :: "string \<Rightarrow> string" where
  "skip_ws s = dropWhile is_ws s"

text \<open>\<^verbatim>\<open>s.lstrip(chars)\<close> and \<^verbatim>\<open>s.strip(chars)\<close>.\<close>

definition lstrip :: "char set \<Rightarrow> string \<Rightarrow> string" where
  "lstrip cs s = dropWhile (\<lambda>c. c \<in> cs) s"

definition strip :: "char set \<Rightarrow> string \<Rightarrow> string" where
  "strip cs s = rev (dropWhile (\<lambda>c. c \<in> cs) (rev (dropWhile (\<lambda>c. c \<in> cs) s)))"

text \<open>\<^verbatim>\<open>s.rsplit('%', 1)[0]\<close>: the part before the last \<^verbatim>\<open>%\<close>, the whole string
  when there is none.\<close>

definition rsplit_last_head :: "char \<Rightarrow> string \<Rightarrow> string" where
  "rsplit_last_head sep s =
     (if sep \<in> set s then rev (tl (dropWhile (\<lambda>c. c \<noteq> sep) (rev s))) else s)"

text \<open>\<^verbatim>\<open>str(n)\<close> for an integer.\<close>

function str_nat :: "nat \<Rightarrow> string" where
  "str_nat n = (if n < 10 then [digit_char n] else str_nat (n div 10) @ [digit_char (n mod 10)])"
  by pat_completeness auto
termination
  by (relation "measure (\<lambda>n. n)") auto

definition str_int :: "int \<Rightarrow> string" where
  "str_int i = (if i < 0 then CHR ''-'' # str_nat (nat (- i)) else str_nat (nat i))"

definition nat_of_digits :: "string \<Rightarrow> nat" where
  "nat_of_digits ds = foldl (\<lambda>a c. 10 * a + digit_val c) 0 ds"

subsection \<open>UTF-8\<close>

text \<open>Well-formed UTF-8, as the strict decoder of \<^verbatim>\<open>bytes.decode("utf-8")\<close> accepts it:
  shortest forms only, no surrogates, nothing above U+10FFFF.\<close>

definition in_range :: "nat \<Rightarrow> nat \<Rightarrow> char \<Rightarrow> bool" where
  "in_range lo hi c = (lo \<le> byte c \<and> byte c \<le> hi)"

fun utf8_valid :: "string \<Rightarrow> bool" where
  "utf8_valid [] = True"
| "utf8_valid (c # s) =
     (if byte c < 0x80 then utf8_valid s
      else if in_range 0xC2 0xDF c then
        (case s of c1 # s' \<Rightarrow> in_range 0x80 0xBF c1 \<and> utf8_valid s' | _ \<Rightarrow> False)
      else if in_range 0xE0 0xEF c then
        (case s of c1 # c2 # s' \<Rightarrow>
            in_range (if byte c = 0xE0 then 0xA0 else 0x80) (if byte c = 0xED then 0x9F else 0xBF) c1
            \<and> in_range 0x80 0xBF c2 \<and> utf8_valid s'
         | _ \<Rightarrow> False)
      else if in_range 0xF0 0xF4 c then
        (case s of c1 # c2 # c3 # s' \<Rightarrow>
            in_range (if byte c = 0xF0 then 0x90 else 0x80) (if byte c = 0xF4 then 0x8F else 0xBF) c1
            \<and> in_range 0x80 0xBF c2 \<and> in_range 0x80 0xBF c3 \<and> utf8_valid s'
         | _ \<Rightarrow> False)
      else False)"

datatype json =
    JNull
  | JBool bool
  | JInt int
  | JFloat string
  | JString string
  | JArray "json list"
  | JObject "(string \<times> json) list"

text \<open>The exceptions the module can raise. \<^verbatim>\<open>UnicodeDecodeError\<close> and \<^verbatim>\<open>UnicodeEncodeError\<close>
  are subclasses of \<^verbatim>\<open>ValueError\<close>; \<^verbatim>\<open>HttpBadRequest\<close> carries its argument (the decoded body, possibly
  \<^verbatim>\<open>None\<close>) and the \<^verbatim>\<open>fingerprint\<close> attribute when it was set.  \<open>NotModelled\<close> marks a
  Python behaviour this development does not model (the \<^verbatim>\<open>repr\<close> of a float).\<close>

datatype exn =
    ValueError
  | UnicodeDecodeError
  | UnicodeEncodeError
  | TypeError
  | KeyError
  | IndexError
  | HttpBadRequest "string option" "json option"
  | NotModelled

definition decode_utf8 :: "string \<Rightarrow> exn + string" where
  "decode_utf8 bs = (if utf8_valid bs then Inr bs else Inl UnicodeDecodeError)"

text \<open>The code points of a \<^verbatim>\<open>str\<close>, read off its encoding, and the encoding of one
  code point.\<close>

definition cont_bits :: "nat \<Rightarrow> string \<Rightarrow> nat" where
  "cont_bits hi cs = foldl (\<lambda>a c. a * 64 + byte c mod 64) hi cs"

fun codepoints :: "string \<Rightarrow> nat list" where
  "codepoints [] = []"
| "codepoints (c # s) =
     (if byte c < 0xC0 then byte c # codepoints s
      else if byte c < 0xE0 then cont_bits (byte c mod 32) (take 1 s) # codepoints (drop 1 s)
      else if byte c < 0xF0 then cont_bits (byte c mod 16) (take 2 s) # codepoints (drop 2 s)
      else cont_bits (byte c mod 8) (take 3 s) # codepoints (drop 3 s))"

definition py_len :: "string \<Rightarrow> nat" where
  "py_len s = length (codepoints s)"

definition utf8_encode :: "nat \<Rightarrow> string" where
  "utf8_encode cp =
     (if cp < 0x80 then [char_of cp]
      else if cp < 0x800 then [char_of (0xC0 + cp div 64), char_of (0x80 + cp mod 64)]
      else if cp < 0x10000 then
        [char_of (0xE0 + cp div 4096), char_of (0x80 + cp div 64 mod 64), char_of (0x80 + cp mod 64)]
      else
        [char_of (0xF0 + cp div 262144), char_of (0x80 + cp div 4096 mod 64),
         char_of (0x80 + cp div 64 mod 64), char_of (0x80 + cp mod 64)])"


section \<open>The JSON decoder and encoder\<close>

text \<open>
  The module calls \<^verbatim>\<open>json.loads\<close>, \<^verbatim>\<open>json.JSONDecoder().raw_decode\<close> and \<^verbatim>\<open>json.dumps\<close>
  of the Python standard library.  The decoder is modelled after the scanner of
  \<^verbatim>\<open>json.scanner\<close> and \<^verbatim>\<open>json.decoder\<close> (strict mode): one value is read from the front
  of the text, whitespace is skipped inside arrays and objects only, a number is the
  longest match of \<^verbatim>\<open>-?(0|[1-9]\d*)(\.\d+)?([eE][-+]?\d+)?\<close>.  A number with a fraction or
  an exponent, \<^verbatim>\<open>NaN\<close> and the infinities are floats: they are kept as the text they
  were read from (\<open>JFloat\<close>), so two spellings of one float are different values here.
  A dictionary is an association list in insertion order with distinct keys.
\<close>

subsection \<open>Numbers\<close>

definition match_int_part :: "string \<Rightarrow> (string \<times> string) option" where
  "match_int_part s =
     (case s of
        [] \<Rightarrow> None
      | c # r \<Rightarrow>
          if c = CHR ''0'' then Some ([c], r)
          else if is_digit c then Some (c # takeWhile is_digit r, dropWhile is_digit r)
          else None)"

definition match_frac :: "string \<Rightarrow> string \<times> string" where
  "match_frac s =
     (case s of
        c # d # r \<Rightarrow>
          if c = CHR ''.'' \<and> is_digit d then (c # d # takeWhile is_digit r, dropWhile is_digit r)
          else ([], s)
      | _ \<Rightarrow> ([], s))"

definition match_sign :: "string \<Rightarrow> string \<times> string" where
  "match_sign s =
     (case s of
        c # r \<Rightarrow> if c = CHR ''+'' \<or> c = CHR ''-'' then ([c], r) else ([], s)
      | [] \<Rightarrow> ([], s))"

definition match_exp :: "string \<Rightarrow> string \<times> string" where
  "match_exp s =
     (case s of
        e # r \<Rightarrow>
          if e = CHR ''e'' \<or> e = CHR ''E'' then
            (case match_sign r of
               (sg, d # r') \<Rightarrow>
                 if is_digit d then (e # sg @ d # takeWhile is_digit r', dropWhile is_digit r')
                 else ([], s)
             | (sg, []) \<Rightarrow> ([], s))
          else ([], s)
      | [] \<Rightarrow> ([], s))"

definition match_number :: "string \<Rightarrow> (json \<times> string) option" where
  "match_number s =
     (let (neg, s1) = (case s of c # r \<Rightarrow> if c = CHR ''-'' then (True, r) else (False, s)
                                | [] \<Rightarrow> (False, s))
      in case match_int_part s1 of
           None \<Rightarrow> None
         | Some (ip, s2) \<Rightarrow>
             (case match_frac s2 of
                (fp, s3) \<Rightarrow>
                  (case match_exp s3 of
                     (ep, s4) \<Rightarrow>
                       if fp = [] \<and> ep = [] then
                         Some (JInt (if neg then - int (nat_of_digits ip) else int (nat_of_digits ip)), s4)
                       else Some (JFloat ((if neg then ''-'' else []) @ ip @ fp @ ep), s4))))"

subsection \<open>Strings\<close>

definition hex_val :: "char \<Rightarrow> nat option" where
  "hex_val c =
     (if is_digit c then Some (byte c - 48)
      else if c \<in> set ''abcdef'' then Some (byte c - 87)
      else if c \<in> set ''ABCDEF'' then Some (byte c - 55)
      else None)"

definition hex4 :: "char \<Rightarrow> char \<Rightarrow> char \<Rightarrow> char \<Rightarrow> nat option" where
  "hex4 a b c d =
     (case (hex_val a, hex_val b, hex_val c, hex_val d) of
        (Some x, Some y, Some z, Some w) \<Rightarrow> Some (x * 4096 + y * 256 + z * 16 + w)
      | _ \<Rightarrow> None)"

definition is_high_surrogate :: "nat \<Rightarrow> bool" where
  "is_high_surrogate u = (0xD800 \<le> u \<and> u \<le> 0xDBFF)"

definition is_low_surrogate :: "nat \<Rightarrow> bool" where
  "is_low_surrogate u = (0xDC00 \<le> u \<and> u \<le> 0xDFFF)"

definition join_surrogates :: "nat \<Rightarrow> nat \<Rightarrow> nat" where
  "join_surrogates hi lo = 0x10000 + (hi - 0xD800) * 1024 + (lo - 0xDC00)"

text \<open>The one-character escapes \<^verbatim>\<open>\" \\ \/ \b \f \n \r \t\<close>.\<close>

definition unescape :: "char \<Rightarrow> char option" where
  "unescape e =
     (if e = CHR 0x22 then Some (CHR 0x22)
      else if e = CHR 0x5C then Some (CHR 0x5C)
      else if e = CHR ''/'' then Some (CHR ''/'')
      else if e = CHR ''b'' then Some (CHR 0x08)
      else if e = CHR ''f'' then Some (CHR 0x0C)
      else if e = CHR ''n'' then Some (CHR 0x0A)
      else if e = CHR ''r'' then Some (CHR 0x0D)
      else if e = CHR ''t'' then Some (CHR 0x09)
      else None)"

text \<open>The low surrogate that follows at the front of the text, when a
  \<^verbatim>\<open>\uXXXX\<close> escape for one stands there.\<close>

definition low_surrogate_ahead :: "string \<Rightarrow> (nat \<times> string) option" where
  "low_surrogate_ahead s =
     (case s of
        b # u # h1 # h2 # h3 # h4 # r \<Rightarrow>
          if b = CHR 0x5C \<and> u = CHR ''u'' then
            (case hex4 h1 h2 h3 h4 of
               Some lo \<Rightarrow> if is_low_surrogate lo then Some (lo, r) else None
             | None \<Rightarrow> None)
          else None
      | _ \<Rightarrow> None)"

definition prepend :: "string \<Rightarrow> (string \<times> string) option \<Rightarrow> (string \<times> string) option" where
  "prepend p r = map_option (\<lambda>(t, rest). (p @ t, rest)) r"

text \<open>\<^verbatim>\<open>scanstring\<close>, from the character after the opening quote: the decoded
  string and the text after the closing quote.\<close>

fun scanstring :: "string \<Rightarrow> (string \<times> string) option" where
  "scanstring [] = None"
| "scanstring (c # s) =
     (if c = CHR 0x22 then Some ([], s)
      else if c = CHR 0x5C then
        (case s of
           [] \<Rightarrow> None
         | e # s' \<Rightarrow>
             if e = CHR ''u'' then
               (case s' of
                  h1 # h2 # h3 # h4 # s'' \<Rightarrow>
                    (case hex4 h1 h2 h3 h4 of
                       None \<Rightarrow> None
                     | Some u \<Rightarrow>
                         if is_high_surrogate u then
                           (case low_surrogate_ahead s'' of
                              Some (lo, r) \<Rightarrow>
                                prepend (utf8_encode (join_surrogates u lo)) (scanstring (drop 6 s''))
                            | None \<Rightarrow> prepend (utf8_encode u) (scanstring s''))
                         else prepend (utf8_encode u) (scanstring s''))
                | _ \<Rightarrow> None)
             else
               (case unescape e of
                  None \<Rightarrow> None
                | Some ch \<Rightarrow> prepend [ch] (scanstring s')))
      else if byte c < 0x20 then None
      else prepend [c] (scanstring s))"

subsection \<open>Values\<close>

datatype frame =
    InArray "json list"
  | InObject "(string \<times> json) list" string

datatype pstate =
    ExpectValue "frame list"
  | AfterValue json "frame list"

text \<open>An object key with its colon: \<^verbatim>\<open>"key" : \<close>, up to the first character of
  the value.\<close>

definition parse_key :: "string \<Rightarrow> (string \<times> string) option" where
  "parse_key s =
     (case s of
        [] \<Rightarrow> None
      | c # r \<Rightarrow>
          if c \<noteq> CHR 0x22 then None
          else
            (case scanstring r of
               None \<Rightarrow> None
             | Some (k, r1) \<Rightarrow>
                 (case skip_ws r1 of
                    [] \<Rightarrow> None
                  | d # r2 \<Rightarrow> if d = CHR '':'' then Some (k, skip_ws r2) else None)))"

text \<open>The literals, recognised by comparing the front of the text: \<^verbatim>\<open>null\<close>,
  \<^verbatim>\<open>true\<close>, \<^verbatim>\<open>false\<close>, and the floats \<^verbatim>\<open>NaN\<close>, \<^verbatim>\<open>Infinity\<close> and \<^verbatim>\<open>-Infinity\<close>.\<close>

definition match_literal :: "string \<Rightarrow> (json \<times> string) option" where
  "match_literal s =
     (if take 4 s = ''null'' then Some (JNull, drop 4 s)
      else if take 4 s = ''true'' then Some (JBool True, drop 4 s)
      else if take 5 s = ''false'' then Some (JBool False, drop 5 s)
      else if take 3 s = ''NaN'' then Some (JFloat ''NaN'', drop 3 s)
      else if take 8 s = ''Infinity'' then Some (JFloat ''Infinity'', drop 8 s)
      else if take 9 s = ''-Infinity'' then Some (JFloat ''-Infinity'', drop 9 s)
      else None)"

text \<open>One step of the scanner.  \<open>ExpectValue\<close> stands where \<^verbatim>\<open>scan_once\<close> is
  entered; \<open>AfterValue\<close> where it has returned a value to the array or object that
  holds it.\<close>

fun step :: "pstate \<Rightarrow> string \<Rightarrow> (pstate \<times> string) option" where
  "step (ExpectValue K) s =
     (case s of
        [] \<Rightarrow> None
      | c # r \<Rightarrow>
          if c = CHR 0x22 then
            (case scanstring r of
               None \<Rightarrow> None
             | Some (str, r') \<Rightarrow> Some (AfterValue (JString str) K, r'))
          else if c = CHR ''{'' then
            (case skip_ws r of
               [] \<Rightarrow> None
             | d # r' \<Rightarrow>
                 if d = CHR ''}'' then Some (AfterValue (JObject []) K, r')
                 else
                   (case parse_key (d # r') of
                      None \<Rightarrow> None
                    | Some (k, r'') \<Rightarrow> Some (ExpectValue (InObject [] k # K), r'')))
          else if c = CHR ''['' then
            (case skip_ws r of
               [] \<Rightarrow> None
             | d # r' \<Rightarrow>
                 if d = CHR '']'' then Some (AfterValue (JArray []) K, r')
                 else Some (ExpectValue (InArray [] # K), d # r'))
          else
            (case match_literal s of
               Some (v, r') \<Rightarrow> Some (AfterValue v K, r')
             | None \<Rightarrow>
                 (case match_number s of
                    None \<Rightarrow> None
                  | Some (v, r') \<Rightarrow> Some (AfterValue v K, r'))))"
| "step (AfterValue v []) s = None"
| "step (AfterValue v (InArray acc # K)) s =
     (case skip_ws s of
        [] \<Rightarrow> None
      | c # r \<Rightarrow>
          if c = CHR '']'' then Some (AfterValue (JArray (acc @ [v])) K, r)
          else if c = CHR '','' then Some (ExpectValue (InArray (acc @ [v]) # K), skip_ws r)
          else None)"
| "step (AfterValue v (InObject kvs k # K)) s =
     (case skip_ws s of
        [] \<Rightarrow> None
      | c # r \<Rightarrow>
          if c = CHR ''}'' then Some (AfterValue (JObject (AList.update k v kvs)) K, r)
          else if c = CHR '','' then
            (case parse_key (skip_ws r) of
               None \<Rightarrow> None
             | Some (k', r') \<Rightarrow> Some (ExpectValue (InObject (AList.update k v kvs) k' # K), r'))
          else None)"

subsection \<open>The scanner consumes input\<close>

text \<open>Every step of the scanner consumes at least one character, so the scanner
  terminates on every text.\<close>

lemma prepend_Some: "prepend p r = Some (t, rest) \<Longrightarrow> \<exists>t'. r = Some (t', rest) \<and> t = p @ t'"
  by (cases r) (auto simp: prepend_def)

lemma scanstring_unfold:
  assumes "scanstring (c # s0) = Some (t, r)"
  shows "r = s0 \<or> (\<exists>s' t'. scanstring s' = Some (t', r) \<and> length s' \<le> length s0)"
proof (cases "c = CHR 0x22")
  case True
  with assms show ?thesis by simp
next
  case nq: False
  show ?thesis
  proof (cases "c = CHR 0x5C")
    case False
    with nq assms show ?thesis
      by (auto split: if_splits dest!: prepend_Some)
  next
    case bs: True
    from assms nq bs obtain e s1 where s0: "s0 = e # s1" by (cases s0) auto
    show ?thesis
    proof (cases "e = CHR ''u''")
      case False
      with assms nq bs s0 show ?thesis
        by (auto split: option.splits dest!: prepend_Some intro: le_SucI)
    next
      case True
      with assms nq bs s0 obtain h1 h2 h3 h4 s2 where s1: "s1 = h1 # h2 # h3 # h4 # s2"
        by (auto split: list.splits)
      with assms nq bs s0 True obtain u where u: "hex4 h1 h2 h3 h4 = Some u"
        by (auto split: option.splits)
      from assms nq bs s0 True s1 u
      have "(\<exists>t'. scanstring (drop 6 s2) = Some (t', r)) \<or> (\<exists>t'. scanstring s2 = Some (t', r))"
        by (auto split: if_splits option.splits dest!: prepend_Some)
      then show ?thesis
      proof
        assume "\<exists>t'. scanstring (drop 6 s2) = Some (t', r)"
        then obtain t' where "scanstring (drop 6 s2) = Some (t', r)" ..
        moreover have "length (drop 6 s2) \<le> length s0" using s0 s1 by simp
        ultimately show ?thesis by blast
      next
        assume "\<exists>t'. scanstring s2 = Some (t', r)"
        then obtain t' where "scanstring s2 = Some (t', r)" ..
        moreover have "length s2 \<le> length s0" using s0 s1 by simp
        ultimately show ?thesis by blast
      qed
    qed
  qed
qed

lemma scanstring_shorter: "scanstring s = Some (t, r) \<Longrightarrow> length r < length s"
proof (induction "length s" arbitrary: s t r rule: less_induct)
  case less
  from less.prems obtain c s0 where s: "s = c # s0" by (cases s) auto
  from scanstring_unfold[OF less.prems[unfolded s]]
  show ?case
  proof
    assume "r = s0" with s show ?thesis by simp
  next
    assume "\<exists>s' t'. scanstring s' = Some (t', r) \<and> length s' \<le> length s0"
    then obtain s' t' where a: "scanstring s' = Some (t', r)" "length s' \<le> length s0" by blast
    with s have "length s' < length s" by simp
    from less.hyps[OF this a(1)] a(2) s show ?thesis by simp
  qed
qed

lemma skip_ws_le: "length (skip_ws s) \<le> length s"
  by (simp add: skip_ws_def length_dropWhile_le)

lemma skip_ws_Cons_shorter: "skip_ws s = c # r \<Longrightarrow> length r < length s"
  using skip_ws_le[of s] by simp

lemma match_int_part_split: "match_int_part s = Some (ip, r) \<Longrightarrow> s = ip @ r \<and> ip \<noteq> []"
  by (auto simp: match_int_part_def split: list.splits if_splits)

lemma match_frac_split: "match_frac s = (fp, r) \<Longrightarrow> s = fp @ r"
  by (auto simp: match_frac_def split: list.splits if_splits)

lemma match_sign_split: "match_sign s = (sg, r) \<Longrightarrow> s = sg @ r"
  by (auto simp: match_sign_def split: list.splits if_splits)

lemma match_exp_split: "match_exp s = (ep, r) \<Longrightarrow> s = ep @ r"
  by (auto simp: match_exp_def split: list.splits if_splits prod.splits dest: match_sign_split)

lemma match_number_shorter: "match_number s = Some (v, r) \<Longrightarrow> length r < length s"
proof -
  assume a: "match_number s = Some (v, r)"
  obtain neg s1 where ns: "(case s of c # r \<Rightarrow> if c = CHR ''-'' then (True, r) else (False, s) | [] \<Rightarrow> (False, s)) = (neg, s1)"
    by (cases "(case s of c # r \<Rightarrow> if c = CHR ''-'' then (True, r) else (False, s) | [] \<Rightarrow> (False, s))") auto
  then have l1: "length s1 \<le> length s" by (auto split: list.splits if_splits)
  from a ns obtain ip s2 where ip: "match_int_part s1 = Some (ip, s2)"
    by (auto simp: match_number_def split: option.splits)
  obtain fp s3 where fp: "match_frac s2 = (fp, s3)" by (cases "match_frac s2") auto
  obtain ep s4 where ep: "match_exp s3 = (ep, s4)" by (cases "match_exp s3") auto
  from a ns ip fp ep have "r = s4" by (auto simp: match_number_def split: if_splits)
  moreover from match_int_part_split[OF ip] have "length s2 < length s1" by (cases ip) auto
  moreover from match_frac_split[OF fp] have "length s3 \<le> length s2" by auto
  moreover from match_exp_split[OF ep] have "length s4 \<le> length s3" by auto
  ultimately show ?thesis using l1 by simp
qed

lemma parse_key_shorter: "parse_key s = Some (k, r) \<Longrightarrow> length r < length s"
proof -
  assume a: "parse_key s = Some (k, r)"
  then obtain c s0 where s: "s = c # s0" by (cases s) (auto simp: parse_key_def)
  with a obtain r1 where r1: "scanstring s0 = Some (k, r1)"
    by (auto simp: parse_key_def split: if_splits option.splits list.splits)
  with a s obtain d r2 where r2: "skip_ws r1 = d # r2" "r = skip_ws r2"
    by (auto simp: parse_key_def split: if_splits option.splits list.splits)
  have "length r \<le> length r2" using r2 skip_ws_le by simp
  moreover have "length r2 < length r1" using r2 skip_ws_Cons_shorter by simp
  moreover have "length r1 < length s0" using scanstring_shorter[OF r1] .
  ultimately show ?thesis using s by simp
qed

lemma step_Expect_shorter:
  assumes "step (ExpectValue K) s = Some (st', s')" shows "length s' < length s"
proof -
  from assms obtain c r where s: "s = c # r" by (cases s) auto
  have sw2: "length (skip_ws r) \<le> length r" by (rule skip_ws_le)
  consider (str) "c = CHR 0x22" | (obj) "c = CHR ''{''" | (arr) "c = CHR ''[''"
    | (other) "c \<noteq> CHR 0x22" "c \<noteq> CHR ''{''" "c \<noteq> CHR ''[''" by blast
  then show ?thesis
  proof cases
    case str
    with assms s obtain str where "scanstring r = Some (str, s')"
      by (auto split: option.splits)
    from scanstring_shorter[OF this] s show ?thesis by simp
  next
    case obj
    with assms s obtain d r' where d: "skip_ws r = d # r'" by (auto split: list.splits)
    show ?thesis
    proof (cases "d = CHR ''}''")
      case True
      with assms s obj d have "s' = r'" by auto
      with skip_ws_Cons_shorter[OF d] s show ?thesis by simp
    next
      case False
      with assms s obj d obtain k where "parse_key (d # r') = Some (k, s')"
        by (auto split: option.splits)
      from parse_key_shorter[OF this] d sw2 s show ?thesis by simp
    qed
  next
    case arr
    with assms s obtain d r' where d: "skip_ws r = d # r'" by (auto split: list.splits)
    with assms s arr have "s' = r' \<or> s' = d # r'" by (auto split: if_splits)
    with skip_ws_Cons_shorter[OF d] d sw2 s show ?thesis by auto
  next
    case other
    with assms s have "(\<exists>v. match_literal s = Some (v, s')) \<or> (\<exists>v. match_number s = Some (v, s'))"
      by (auto split: option.splits)
    then show ?thesis
    proof
      assume "\<exists>v. match_literal s = Some (v, s')"
      then have "\<exists>n. s' = drop (Suc n) s"
        by (auto simp: match_literal_def numeral_eq_Suc simp del: drop_Suc_Cons split: if_splits)
      with s show ?thesis by auto
    next
      assume "\<exists>v. match_number s = Some (v, s')"
      then show ?thesis using match_number_shorter by blast
    qed
  qed
qed

lemma step_After_shorter:
  assumes "step (AfterValue v K) s = Some (st', s')" shows "length s' < length s"
proof (cases K)
  case Nil
  with assms show ?thesis by simp
next
  case (Cons f K')
  from assms Cons obtain c r where c: "skip_ws s = c # r"
    by (cases f; cases "skip_ws s") auto
  have r: "length r < length s" by (rule skip_ws_Cons_shorter[OF c])
  have sw: "length (skip_ws r) \<le> length r" by (rule skip_ws_le)
  show ?thesis
  proof (cases f)
    case (InArray acc)
    with assms Cons c have "s' = r \<or> s' = skip_ws r" by (auto split: if_splits)
    with r sw show ?thesis by auto
  next
    case (InObject kvs k)
    with assms Cons c have "s' = r \<or> (\<exists>k'. parse_key (skip_ws r) = Some (k', s'))"
      by (auto split: if_splits option.splits)
    then show ?thesis
    proof
      assume "s' = r" with r show ?thesis by simp
    next
      assume "\<exists>k'. parse_key (skip_ws r) = Some (k', s')"
      then obtain k' where "parse_key (skip_ws r) = Some (k', s')" ..
      from parse_key_shorter[OF this] sw r show ?thesis by simp
    qed
  qed
qed

lemma step_shorter: "step st s = Some (st', s') \<Longrightarrow> length s' < length s"
  by (cases st) (blast dest: step_Expect_shorter step_After_shorter)+

declare step.simps [simp del]

function run :: "pstate \<Rightarrow> string \<Rightarrow> (json \<times> string) option" where
  "run st s =
     (case st of
        AfterValue v [] \<Rightarrow> Some (v, s)
      | _ \<Rightarrow> (case step st s of None \<Rightarrow> None | Some (st', s') \<Rightarrow> run st' s'))"
  by pat_completeness auto
termination
  by (relation "measure (\<lambda>(st, s). length s)") (auto dest: step_shorter)

declare run.simps [simp del]

definition scan_once :: "string \<Rightarrow> (json \<times> string) option" where
  "scan_once s = run (ExpectValue []) s"

definition raw_decode :: "string \<Rightarrow> exn + (json \<times> nat)" where
  "raw_decode s =
     (case scan_once s of
        None \<Rightarrow> Inl ValueError
      | Some (v, rest) \<Rightarrow> Inr (v, length s - length rest))"

definition json_loads :: "string \<Rightarrow> exn + json" where
  "json_loads s =
     (case scan_once (skip_ws s) of
        None \<Rightarrow> Inl ValueError
      | Some (v, rest) \<Rightarrow> if skip_ws rest = [] then Inr v else Inl ValueError)"

subsection \<open>The encoder\<close>

text \<open>\<^verbatim>\<open>json.dumps\<close> with its defaults: \<^verbatim>\<open>ensure_ascii\<close> is on, so every character
  outside \<^verbatim>\<open>' '..'~'\<close> is written as an escape and the text is ASCII; the separators
  are \<^verbatim>\<open>", "\<close> and \<^verbatim>\<open>": "\<close>.  The \<^verbatim>\<open>repr\<close> of a float is not modelled: the result is
  \<open>None\<close> for a value that holds one.\<close>

definition hex_digit :: "nat \<Rightarrow> char" where
  "hex_digit n = ''0123456789abcdef'' ! n"

definition u_escape :: "nat \<Rightarrow> string" where
  "u_escape u =
     [CHR 0x5C, CHR ''u'', hex_digit (u div 4096 mod 16), hex_digit (u div 256 mod 16),
      hex_digit (u div 16 mod 16), hex_digit (u mod 16)]"

definition escape_cp :: "nat \<Rightarrow> string" where
  "escape_cp cp =
     (if cp = 0x22 then [CHR 0x5C, CHR 0x22]
      else if cp = 0x5C then [CHR 0x5C, CHR 0x5C]
      else if cp = 0x0A then [CHR 0x5C, CHR ''n'']
      else if cp = 0x0D then [CHR 0x5C, CHR ''r'']
      else if cp = 0x09 then [CHR 0x5C, CHR ''t'']
      else if cp = 0x08 then [CHR 0x5C, CHR ''b'']
      else if cp = 0x0C then [CHR 0x5C, CHR ''f'']
      else if 0x20 \<le> cp \<and> cp \<le> 0x7E then [char_of cp]
      else if cp < 0x10000 then u_escape cp
      else u_escape (0xD800 + (cp - 0x10000) div 1024 mod 1024)
           @ u_escape (0xDC00 + (cp - 0x10000) mod 1024))"

definition encode_basestring_ascii :: "string \<Rightarrow> string" where
  "encode_basestring_ascii s = CHR 0x22 # concat (map escape_cp (codepoints s)) @ [CHR 0x22]"

fun join :: "string \<Rightarrow> string list \<Rightarrow> string" where
  "join sep [] = []"
| "join sep [x] = x"
| "join sep (x # y # ys) = x @ sep @ join sep (y # ys)"

fun json_dumps :: "json \<Rightarrow> string option" where
  "json_dumps JNull = Some ''null''"
| "json_dumps (JBool b) = Some (if b then ''true'' else ''false'')"
| "json_dumps (JInt i) = Some (str_int i)"
| "json_dumps (JFloat f) = None"
| "json_dumps (JString s) = Some (encode_basestring_ascii s)"
| "json_dumps (JArray xs) =
     map_option (\<lambda>ys. ''['' @ join '', '' ys @ '']'') (those (map json_dumps xs))"
| "json_dumps (JObject kvs) =
     map_option (\<lambda>ys. ''{'' @ join '', '' ys @ ''}'')
       (those (map (\<lambda>kv. map_option (\<lambda>d. encode_basestring_ascii (fst kv) @ '': '' @ d)
                                    (json_dumps (snd kv))) kvs))"

subsection \<open>Membership and subscripting on decoded values\<close>

text \<open>\<^verbatim>\<open>key in params\<close> and \<^verbatim>\<open>params[key]\<close> for a string key, on any value the decoder
  can return: a dictionary is searched by key, a list by element, a string by substring,
  and the other values raise \<^verbatim>\<open>TypeError\<close>.\<close>

definition py_contains :: "string \<Rightarrow> json \<Rightarrow> exn + bool" where
  "py_contains k v =
     (case v of
        JObject kvs \<Rightarrow> Inr (k \<in> set (map fst kvs))
      | JArray xs \<Rightarrow> Inr (JString k \<in> set xs)
      | JString s \<Rightarrow> Inr (sublist k s)
      | _ \<Rightarrow> Inl TypeError)"

definition py_getitem :: "json \<Rightarrow> string \<Rightarrow> exn + json" where
  "py_getitem v k =
     (case v of
        JObject kvs \<Rightarrow> (case map_of kvs k of None \<Rightarrow> Inl KeyError | Some x \<Rightarrow> Inr x)
      | _ \<Rightarrow> Inl TypeError)"

section \<open>The HTTP client\<close>

subsection \<open>State, collaborators and observable effects\<close>

text \<open>The fields of \<^verbatim>\<open>HTTPClient\<close> that the methods read or write.  \<open>buffer\<close> is
  \<^verbatim>\<open>self._buffer\<close>, the per-query remainder of the streaming decoder.\<close>

record client =
  protocol :: string
  host :: string
  port :: int
  user :: "string option"
  password :: "string option"
  connected :: bool
  buffer :: "string \<rightharpoonup> string"

text \<open>What the module imports from files that are not part of it, taken as
  parameters: \<^verbatim>\<open>__version__\<close> and \<^verbatim>\<open>__version_info__\<close> of \<^verbatim>\<open>gns3.version\<close>,
  \<^verbatim>\<open>parse_version\<close> of \<^verbatim>\<open>gns3.utils\<close>, the verdict of \<^verbatim>\<open>ipaddress.IPv6Address\<close> (true when
  it does not raise \<^verbatim>\<open>AddressValueError\<close>) and \<^verbatim>\<open>base64.b64encode\<close>.  \<open>progress_callback\<close> is
  the class attribute \<^verbatim>\<open>HTTPClient._progress_callback\<close>: \<open>None\<close> when unset, otherwise
  whether its \<^verbatim>\<open>progress_dialog()\<close> exists.\<close>

record env =
  version :: string
  version_info :: "int list"
  parse_version :: "string \<Rightarrow> int list"
  ipv6_address :: "string \<Rightarrow> bool"
  b64encode :: "string \<Rightarrow> string"
  progress_callback :: "bool option"

text \<open>A request context: the caller's mapping, in which the module reads and writes
  the key \<^verbatim>\<open>query_id\<close> only.\<close>

record rcontext =
  query_id :: "string option"
  entries :: "(string \<times> json) list"

text \<open>The body argument of a query, by the cases \<^verbatim>\<open>_addBodyToRequest\<close> tells apart.\<close>

datatype pybody =
    BNone
  | BDict "(string \<times> json) list"
  | BPath string
  | BStr string
  | BOther

text \<open>The keyword arguments of a query.  Callbacks and servers are opaque handles.\<close>

record options =
  downloadProgressCallback :: "nat option"
  showProgress :: bool
  ignoreErrors :: bool
  progressText :: "string option"
  timeout :: "nat option"
  server :: "nat option"

definition default_options :: options where
  "default_options =
     \<lparr>downloadProgressCallback = None, showProgress = True, ignoreErrors = False,
      progressText = None, timeout = Some 120, server = None\<rparr>"

text \<open>The query that \<^verbatim>\<open>createHTTPQuery\<close> binds to \<^verbatim>\<open>_callbackConnect\<close> while the client is
  not connected, and the two kinds of completion callback: a caller's, or that bound
  continuation.\<close>

record query =
  q_method :: string
  q_path :: string
  q_callback :: "nat option"
  q_body :: pybody
  q_context :: rcontext
  q_options :: options

datatype handler =
    UserCallback nat
  | ConnectCallback query

text \<open>Messages built with \<^verbatim>\<open>str.format\<close> are kept as the format's arguments.\<close>

datatype message =
    Text string
  | Value json
  | CannotConnect string
  | CannotConnectMsg string string
  | NotGNS3Server string
  | VersionDiffers string json
  | VersionWarning
  | LegacyCompute string

text \<open>What a callback receives first: a decoded value or dictionary, the raw bytes of a
  chunk, or the dictionary \<^verbatim>\<open>{"message": msg}\<close> of a formatted message.\<close>

datatype payload =
    PJson json
  | PBytes string
  | PMessage message

datatype wire_body =
    Buffer string
  | File string

text \<open>A request handed to \<^verbatim>\<open>sendCustomRequest\<close>, with the observers connected to its
  reply.\<close>

record sent =
  s_method :: string
  s_url :: string
  s_headers :: "(string \<times> string) list"
  s_payload :: "wire_body option"
  s_finished :: "handler option"
  s_context :: rcontext
  s_options :: options

text \<open>The effects a method has besides changing the client: a callback invocation
  (callback, first argument, \<^verbatim>\<open>error\<close>, \<^verbatim>\<open>server\<close>, \<^verbatim>\<open>context\<close> when passed, \<^verbatim>\<open>raw_body\<close> when
  passed), the signals to the progress callback, a request sent, the
  \<^verbatim>\<open>connection_connected_signal\<close>, and the error and warning log lines (debug and info
  lines are left out).\<close>

datatype event =
    Call handler payload bool "nat option" "rcontext option" "string option option"
  | ProgressStart string "string option"
  | ProgressEnd string
  | CancelObserver
  | Send sent
  | ConnectedSignal
  | LogError message
  | LogWarning message

text \<open>The result of running a method: the effects in order, the client afterwards, and
  the exception that left the method, if any.\<close>

record outcome =
  events :: "event list"
  state :: client
  raised :: "exn option"

definition is_call :: "event \<Rightarrow> bool" where
  "is_call e = (case e of Call h p er sv cx rb \<Rightarrow> True | _ \<Rightarrow> False)"

definition calls :: "outcome \<Rightarrow> event list" where
  "calls out = filter is_call (events out)"

text \<open>The reply of the network layer, as the methods read it: \<^verbatim>\<open>error()\<close> (0 is
  \<^verbatim>\<open>NoError\<close>), \<^verbatim>\<open>errorString()\<close>, the \<^verbatim>\<open>HttpStatusCodeAttribute\<close>, the bytes of
  \<^verbatim>\<open>readAll()\<close> and the \<^verbatim>\<open>ContentTypeHeader\<close>.\<close>

record reply =
  net_error :: nat
  error_string :: string
  http_status :: "int option"
  read_all :: string
  content_type :: "string option"

subsection \<open>Small methods\<close>

definition url :: "client \<Rightarrow> string" where
  "url c = protocol c @ ''://'' @ host c @ '':'' @ str_int (port c)"

definition close :: "client \<Rightarrow> client" where
  "close c = c\<lparr>connected := False\<rparr>"

definition notify_progress_end_query :: "env \<Rightarrow> string \<Rightarrow> event list" where
  "notify_progress_end_query e qid = (if progress_callback e \<noteq> None then [ProgressEnd qid] else [])"

definition notify_progress_start_query :: "env \<Rightarrow> string \<Rightarrow> string option \<Rightarrow> event list" where
  "notify_progress_start_query e qid text =
     (if progress_callback e \<noteq> None then [ProgressStart qid text] else [])"

text \<open>Python truth of an optional string: \<^verbatim>\<open>None\<close> and \<^verbatim>\<open>""\<close> are false.\<close>

definition truthy :: "string option \<Rightarrow> bool" where
  "truthy s = (case s of None \<Rightarrow> False | Some t \<Rightarrow> t \<noteq> [])"

definition connectionError :: "client \<Rightarrow> nat option \<Rightarrow> string \<Rightarrow> nat option \<Rightarrow> event list" where
  "connectionError c callback msg srv =
     (let m = (if length msg > 0 then CannotConnectMsg (url c) msg else CannotConnect (url c))
      in LogError m #
         (case callback of
            None \<Rightarrow> []
          | Some cb \<Rightarrow> [Call (UserCallback cb) (PMessage m) True srv None None]))"

subsection \<open>\<^verbatim>\<open>_addBodyToRequest\<close>, \<^verbatim>\<open>_addAuth\<close> and \<^verbatim>\<open>_executeHTTPQuery\<close>\<close>

text \<open>\<^verbatim>\<open>setRawHeader\<close> sets or replaces a header.  \<^verbatim>\<open>str.encode()\<close> fails on an
  unpaired surrogate.\<close>

definition setRawHeader :: "string \<Rightarrow> string \<Rightarrow> (string \<times> string) list \<Rightarrow> (string \<times> string) list" where
  "setRawHeader name val hs = AList.update name val hs"

definition encode_utf8 :: "string \<Rightarrow> exn + string" where
  "encode_utf8 s = (if utf8_valid s then Inr s else Inl UnicodeEncodeError)"

definition addBodyToRequest ::
  "pybody \<Rightarrow> (string \<times> string) list \<Rightarrow> exn + (wire_body option \<times> (string \<times> string) list)" where
  "addBodyToRequest body hs =
     (case body of
        BNone \<Rightarrow> Inr (None, hs)
      | BDict d \<Rightarrow>
          (case json_dumps (JObject d) of
             None \<Rightarrow> Inl NotModelled
           | Some text \<Rightarrow>
               (let hs1 = setRawHeader ''Content-Type'' ''application/json'' hs;
                    hs2 = setRawHeader ''Content-Length'' (str_nat (py_len text)) hs1
                in case encode_utf8 text of
                     Inl x \<Rightarrow> Inl x
                   | Inr data \<Rightarrow> Inr (Some (Buffer data), hs2)))
      | BPath p \<Rightarrow> Inr (Some (File p), setRawHeader ''Content-Type'' ''application/octet-stream'' hs)
      | BStr s \<Rightarrow>
          (case encode_utf8 s of
             Inl x \<Rightarrow> Inl x
           | Inr data \<Rightarrow>
               Inr (Some (Buffer data), setRawHeader ''Content-Type'' ''application/octet-stream'' hs))
      | BOther \<Rightarrow> Inr (None, hs))"

definition addAuth :: "env \<Rightarrow> client \<Rightarrow> (string \<times> string) list \<Rightarrow> (string \<times> string) list" where
  "addAuth e c hs =
     (if truthy (user c) then
        setRawHeader ''Authorization''
          (''Basic '' @ b64encode e (the (user c) @ '':'' @
             (case password c of None \<Rightarrow> ''None'' | Some p \<Rightarrow> p))) hs
      else hs)"

text \<open>The host part of the URL: an IPv6 literal, read without its scope, goes between
  brackets.\<close>

definition url_host :: "env \<Rightarrow> client \<Rightarrow> string" where
  "url_host e c =
     (let ip = rsplit_last_head (CHR ''%'') (host c)
      in if ipv6_address e ip then ''['' @ ip @ '']'' else host c)"

definition request_url :: "env \<Rightarrow> client \<Rightarrow> string \<Rightarrow> string" where
  "request_url e c path =
     (if truthy (user c) then
        protocol c @ ''://'' @ the (user c) @ ''@'' @ url_host e c @ '':'' @ str_int (port c)
          @ ''/v2'' @ path
      else protocol c @ ''://'' @ url_host e c @ '':'' @ str_int (port c) @ ''/v2'' @ path)"

text \<open>\<open>qid\<close> is the fresh \<^verbatim>\<open>str(uuid.uuid4())\<close>.  The timer of \<^verbatim>\<open>_timeoutSlot\<close> is part of
  the options recorded with the request.\<close>

definition executeHTTPQuery ::
  "env \<Rightarrow> client \<Rightarrow> string \<Rightarrow> string \<Rightarrow> string \<Rightarrow> handler option \<Rightarrow> pybody \<Rightarrow> rcontext \<Rightarrow> options
     \<Rightarrow> outcome" where
  "executeHTTPQuery e c qid method path callback body ctx opts =
     (let legacy = (if sublist ''compute/'' path then [LogWarning (LegacyCompute path)] else []);
          hs1 = addAuth e c [];
          hs2 = setRawHeader ''User-Agent'' (''GNS3 QT Client v'' @ version e) hs1
      in case addBodyToRequest body hs2 of
           Inl x \<Rightarrow> \<lparr>events = legacy, state = c, raised = Some x\<rparr>
         | Inr (wire, hs3) \<Rightarrow>
             (let ctx' = ctx\<lparr>query_id := Some qid\<rparr>;
                  req = \<lparr>s_method = method, s_url = request_url e c path, s_headers = hs3,
                         s_payload = wire, s_finished = callback, s_context = ctx',
                         s_options = opts\<rparr>
              in \<lparr>events = legacy @ [Send req] @
                     (if showProgress opts then notify_progress_start_query e qid (progressText opts)
                      else []),
                   state = c, raised = None\<rparr>))"

subsection \<open>\<^verbatim>\<open>createHTTPQuery\<close> and \<^verbatim>\<open>_callbackConnect\<close>\<close>

definition empty_context :: rcontext where
  "empty_context = \<lparr>query_id = None, entries = []\<rparr>"

text \<open>\<open>body\<close> and \<open>ctx\<close> are \<open>None\<close> when the caller leaves the argument out: the
  defaults are \<^verbatim>\<open>body={}\<close> and \<^verbatim>\<open>context={}\<close>.  \<^verbatim>\<open>_connect\<close> sends \<^verbatim>\<open>GET /version\<close> with an
  empty dictionary as body, the default context and a timeout of 5 seconds.\<close>

definition connect :: "env \<Rightarrow> client \<Rightarrow> string \<Rightarrow> query \<Rightarrow> nat option \<Rightarrow> outcome" where
  "connect e c qid q srv =
     executeHTTPQuery e c qid ''GET'' ''/version'' (Some (ConnectCallback q)) (BDict []) empty_context
       (default_options\<lparr>server := srv, timeout := Some 5\<rparr>)"

definition createHTTPQuery ::
  "env \<Rightarrow> client \<Rightarrow> string \<Rightarrow> string \<Rightarrow> string \<Rightarrow> nat option \<Rightarrow> pybody option \<Rightarrow> rcontext option
     \<Rightarrow> options \<Rightarrow> outcome" where
  "createHTTPQuery e c qid method path callback body ctx opts =
     (let body' = (case body of None \<Rightarrow> BDict [] | Some b \<Rightarrow> b);
          ctx' = (case ctx of None \<Rightarrow> empty_context | Some x \<Rightarrow> x)
      in if connected c then
           executeHTTPQuery e c qid method path (map_option UserCallback callback) body' ctx' opts
         else
           connect e c qid
             \<lparr>q_method = method, q_path = path, q_callback = callback, q_body = body',
              q_context = ctx', q_options = opts\<rparr>
             (server opts))"

text \<open>\<^verbatim>\<open>_callbackConnect\<close>: \<open>q\<close> holds the arguments bound by \<^verbatim>\<open>createHTTPQuery\<close>;
  \<open>params\<close>, \<open>error\<close> and \<open>srv\<close> are what the completion of \<^verbatim>\<open>GET /version\<close> passes.
  \<^verbatim>\<open>parse_version\<close> is applied to a string; on another value it raises \<^verbatim>\<open>TypeError\<close>.\<close>

definition reject :: "client \<Rightarrow> nat option \<Rightarrow> message \<Rightarrow> nat option \<Rightarrow> event list" where
  "reject c callback m srv =
     (case callback of
        None \<Rightarrow> []
      | Some cb \<Rightarrow> [Call (UserCallback cb) (PMessage m) True srv None None])"

definition proceed :: "env \<Rightarrow> client \<Rightarrow> string \<Rightarrow> query \<Rightarrow> nat option \<Rightarrow> event list \<Rightarrow> outcome" where
  "proceed e c qid q srv earlier =
     (let c' = c\<lparr>connected := True\<rparr>;
          out = executeHTTPQuery e c' qid (q_method q) (q_path q)
                  (map_option UserCallback (q_callback q)) (q_body q) (q_context q)
                  ((q_options q)\<lparr>server := srv\<rparr>)
      in out\<lparr>events := earlier @ [ConnectedSignal] @ events out\<rparr>)"

definition callbackConnect ::
  "env \<Rightarrow> client \<Rightarrow> string \<Rightarrow> query \<Rightarrow> json \<Rightarrow> bool \<Rightarrow> nat option \<Rightarrow> outcome" where
  "callbackConnect e c qid q params error srv =
     (if error then
        \<lparr>events = connectionError c (q_callback q) [] None, state = c, raised = None\<rparr>
      else
        case py_contains ''version'' params of
          Inl x \<Rightarrow> \<lparr>events = [], state = c, raised = Some x\<rparr>
        | Inr has_version \<Rightarrow>
            (case (if has_version then py_contains ''local'' params else Inr False) of
               Inl x \<Rightarrow> \<lparr>events = [], state = c, raised = Some x\<rparr>
             | Inr has_both \<Rightarrow>
                 if \<not> has_both then
                   \<lparr>events = LogError (NotGNS3Server (url c))
                             # reject c (q_callback q) (NotGNS3Server (url c)) srv,
                    state = c, raised = None\<rparr>
                 else
                   (case py_getitem params ''version'' of
                      Inl x \<Rightarrow> \<lparr>events = [], state = c, raised = Some x\<rparr>
                    | Inr sv \<Rightarrow>
                        if sv \<noteq> JString (version e) then
                          (let m = VersionDiffers (version e) sv in
                           if length (version_info e) \<le> 3 then
                             \<lparr>events = [LogError m], state = c, raised = Some IndexError\<rparr>
                           else if version_info e ! 3 = 0 then
                             \<lparr>events = LogError m # reject c (q_callback q) m srv, state = c,
                              raised = None\<rparr>
                           else
                             (case sv of
                                JString s \<Rightarrow>
                                  if take 2 (parse_version e (version e)) \<noteq> take 2 (parse_version e s)
                                  then \<lparr>events = LogError m # reject c (q_callback q) m srv,
                                        state = c, raised = None\<rparr>
                                  else proceed e c qid q srv [LogError m, LogWarning VersionWarning]
                              | _ \<Rightarrow> \<lparr>events = [LogError m], state = c, raised = Some TypeError\<rparr>))
                        else proceed e c qid q srv [])))"

subsection \<open>The streaming decoder\<close>

text \<open>A successful \<^verbatim>\<open>raw_decode\<close> returns an index after at least one character, so the
  loop of \<^verbatim>\<open>_processDownloadProgress\<close> ends on every text.\<close>

lemma run_done [simp]: "run (AfterValue v []) s = Some (v, s)"
  by (simp add: run.simps)

lemma run_Expect: "run (ExpectValue K) s = (case step (ExpectValue K) s of None \<Rightarrow> None | Some (st', s') \<Rightarrow> run st' s')"
  by (subst run.simps) simp

lemma run_After: "run (AfterValue v (f # K)) s = (case step (AfterValue v (f # K)) s of None \<Rightarrow> None | Some (st', s') \<Rightarrow> run st' s')"
  by (subst run.simps) simp

lemma run_le: "run st s = Some (v, r) \<Longrightarrow> length r \<le> length s"
proof (induction "length s" arbitrary: st s rule: less_induct)
  case less
  show ?case
  proof (cases "\<exists>w. st = AfterValue w []")
    case True
    with less.prems show ?thesis by auto
  next
    case False
    then have "run st s = (case step st s of None \<Rightarrow> None | Some (st', s') \<Rightarrow> run st' s')"
      by (cases st; cases "case st of AfterValue w K \<Rightarrow> K | _ \<Rightarrow> []") (auto simp: run_Expect run_After)
    with less.prems obtain st' s' where st: "step st s = Some (st', s')" and r: "run st' s' = Some (v, r)"
      by (auto split: option.splits)
    from less.hyps[OF step_shorter[OF st] r] step_shorter[OF st] show ?thesis by simp
  qed
qed

lemma scan_once_shorter: "scan_once s = Some (v, r) \<Longrightarrow> length r < length s"
proof -
  assume a: "scan_once s = Some (v, r)"
  then obtain st' s' where st: "step (ExpectValue []) s = Some (st', s')" and r: "run st' s' = Some (v, r)"
    unfolding scan_once_def by (auto simp: run_Expect split: option.splits)
  from run_le[OF r] step_shorter[OF st] show ?thesis by simp
qed

lemma raw_decode_index: "raw_decode s = Inr (v, i) \<Longrightarrow> 0 < i \<and> i \<le> length s"
  by (auto simp: raw_decode_def split: option.splits dest: scan_once_shorter)

definition ws_chars :: "char set" where
  "ws_chars = {CHR '' '', CHR 0x0D, CHR 0x0A, CHR 0x09}"

text \<open>The loop \<^verbatim>\<open>while True: content = content.lstrip(" \r\n\t"); answer, index =
  raw_decode(content); callback(answer); content = content[index:]\<close>, left through the
  \<^verbatim>\<open>ValueError\<close> of \<^verbatim>\<open>raw_decode\<close>: the values passed to the callback, in order, and
  the text that is stored in the buffer.\<close>

function decode_stream :: "string \<Rightarrow> json list \<times> string" where
  "decode_stream content =
     (let c = lstrip ws_chars content
      in case raw_decode c of
           Inl x \<Rightarrow> ([], c)
         | Inr (answer, index) \<Rightarrow>
             (case decode_stream (drop index c) of (vs, r) \<Rightarrow> (answer # vs, r)))"
  by pat_completeness auto
termination
proof (relation "measure length")
  show "wf (measure length)" by simp
next
  fix content c x2 answer index
  assume "c = lstrip ws_chars content" "raw_decode c = Inr x2" "(answer, index) = x2"
  then have "raw_decode c = Inr (answer, index)" by simp
  from raw_decode_index[OF this] have "length (drop index c) < length c" by auto
  moreover have "length c \<le> length content"
    using \<open>c = lstrip ws_chars content\<close> by (simp add: lstrip_def length_dropWhile_le)
  ultimately show "(drop index c, content) \<in> measure length" by simp
qed

declare decode_stream.simps [simp del]

text \<open>\<^verbatim>\<open>_processDownloadProgress\<close>: \<open>r\<close> is the reply at the time of the chunk,
  \<open>read_all r\<close> the bytes of this chunk.\<close>

definition processDownloadProgress ::
  "env \<Rightarrow> client \<Rightarrow> reply \<Rightarrow> nat \<Rightarrow> rcontext \<Rightarrow> nat option \<Rightarrow> outcome" where
  "processDownloadProgress e c r callback ctx srv =
     (if net_error r \<noteq> 0 then \<lparr>events = [], state = c, raised = None\<rparr>
      else
        case http_status r of
          None \<Rightarrow> \<lparr>events = [], state = c, raised = Some TypeError\<rparr>
        | Some status \<Rightarrow>
            if status \<ge> 300 then \<lparr>events = [], state = c, raised = None\<rparr>
            else
              (let observer = (if progress_callback e = Some True then [CancelObserver] else []) in
               if content_type r = Some ''application/json'' then
                 (case decode_utf8 (read_all r) of
                    Inl x \<Rightarrow> \<lparr>events = [], state = c, raised = Some x\<rparr>
                  | Inr text \<Rightarrow>
                      (case query_id ctx of
                         None \<Rightarrow> \<lparr>events = [], state = c, raised = Some KeyError\<rparr>
                       | Some qid \<Rightarrow>
                           (let text' = (case buffer c qid of None \<Rightarrow> text | Some b \<Rightarrow> b @ text)
                            in case decode_stream text' of
                                 (answers, rest) \<Rightarrow>
                                   \<lparr>events = map (\<lambda>a. Call (UserCallback callback) (PJson a) False srv
                                                      (Some ctx) None) answers @ observer,
                                    state = c\<lparr>buffer := (buffer c)(qid \<mapsto> rest)\<rparr>,
                                    raised = None\<rparr>)))
               else
                 \<lparr>events = Call (UserCallback callback) (PBytes (read_all r)) False srv (Some ctx) None
                            # observer,
                  state = c, raised = None\<rparr>))"

subsection \<open>\<^verbatim>\<open>_processResponse\<close>\<close>

text \<open>\<^verbatim>\<open>bytes(response.readAll()).decode("utf-8").strip("\0")\<close>, \<open>None\<close> when the bytes
  are not UTF-8.\<close>

definition decode_body :: "string \<Rightarrow> string option" where
  "decode_body bs =
     (case decode_utf8 bs of Inl x \<Rightarrow> None | Inr s \<Rightarrow> Some (strip {CHR 0x00} s))"

definition message_dict :: "string \<Rightarrow> payload" where
  "message_dict m = PJson (JObject [(''message'', JString m)])"

text \<open>The exception raised for status 400: \<^verbatim>\<open>HttpBadRequest(body)\<close>, with the
  fingerprint \<^verbatim>\<open>json.loads(body)["path"]\<close> when that can be computed.\<close>

definition bad_request :: "string option \<Rightarrow> exn" where
  "bad_request body =
     (case body of
        None \<Rightarrow> HttpBadRequest None None
      | Some b \<Rightarrow>
          (case json_loads b of
             Inl x \<Rightarrow> HttpBadRequest body None
           | Inr params \<Rightarrow>
               (case py_getitem params ''path'' of
                  Inl x \<Rightarrow> HttpBadRequest body None
                | Inr fp \<Rightarrow> HttpBadRequest body (Some fp))))"

text \<open>The end of the method, after the callback: the check \<^verbatim>\<open>status == 400\<close>.\<close>

definition finish :: "client \<Rightarrow> event list \<Rightarrow> int option \<Rightarrow> string option \<Rightarrow> outcome" where
  "finish c evs status body =
     \<lparr>events = evs, state = c,
      raised = (if status = Some 400 then Some (bad_request body) else None)\<rparr>"

text \<open>The branch for a reply that the network layer flags as an error and that has an
  HTTP response (error code 200 or more).\<close>

definition http_error_branch ::
  "client \<Rightarrow> reply \<Rightarrow> nat option \<Rightarrow> handler option \<Rightarrow> rcontext \<Rightarrow> event list \<Rightarrow> outcome" where
  "http_error_branch c r srv callback ctx earlier =
     (let status = http_status r;
          logged = earlier @ (if status = Some 401 then [LogError (Text (error_string r))] else []);
          body = decode_body (read_all r)
      in case callback of
           Some h \<Rightarrow>
             (let p = (if \<not> truthy body \<or> content_type r \<noteq> Some ''application/json''
                       then message_dict (error_string r)
                       else (case json_loads (the body) of
                               Inr v \<Rightarrow> PJson v
                             | Inl x \<Rightarrow> message_dict (error_string r)))
              in finish c (logged @ [Call h p True srv (Some ctx) None]) status body)
         | None \<Rightarrow>
             (case body of
                None \<Rightarrow> \<lparr>events = logged, state = c, raised = Some TypeError\<rparr>
              | Some b \<Rightarrow>
                  (case json_loads b of
                     Inl x \<Rightarrow> finish c (logged @ [LogError (Text (error_string r))]) status body
                   | Inr v \<Rightarrow>
                       (case py_getitem v ''message'' of
                          Inr m \<Rightarrow> finish c (logged @ [LogError (Value m)]) status body
                        | Inl x \<Rightarrow>
                            if x = KeyError then
                              finish c (logged @ [LogError (Text (error_string r))]) status body
                            else \<lparr>events = logged, state = c, raised = Some x\<rparr>))))"

text \<open>The branch for a reply without error flag.\<close>

definition success_branch ::
  "client \<Rightarrow> reply \<Rightarrow> nat option \<Rightarrow> handler option \<Rightarrow> rcontext \<Rightarrow> event list \<Rightarrow> outcome" where
  "success_branch c r srv callback ctx earlier =
     (let status = http_status r;
          body = decode_body (read_all r);
          parsed = (if truthy body \<and> length (strip {CHR '' '', CHR 0x0A, CHR 0x09} (the body)) > 0
                       \<and> content_type r = Some ''application/json''
                    then json_loads (the body) else Inr (JObject []))
      in case parsed of
           Inl x \<Rightarrow> \<lparr>events = earlier, state = c, raised = Some x\<rparr>
         | Inr params \<Rightarrow>
             (case callback of
                None \<Rightarrow> finish c earlier status body
              | Some h \<Rightarrow>
                  (case status of
                     None \<Rightarrow> \<lparr>events = earlier, state = c, raised = Some TypeError\<rparr>
                   | Some st \<Rightarrow>
                       if st \<ge> 400 then
                         finish c (earlier @ [Call h (PJson params) True srv (Some ctx) None]) status body
                       else
                         finish c (earlier @ [Call h (PJson params) False srv (Some ctx) (Some body)])
                           status body)))"

definition processResponse ::
  "env \<Rightarrow> client \<Rightarrow> reply \<Rightarrow> nat option \<Rightarrow> handler option \<Rightarrow> rcontext \<Rightarrow> bool \<Rightarrow> outcome" where
  "processResponse e c r srv callback ctx ignore_errors =
     (let earlier = (case query_id ctx of None \<Rightarrow> [] | Some qid \<Rightarrow> notify_progress_end_query e qid)
      in if net_error r \<noteq> 0 then
           if net_error r < 200 then
             (if \<not> ignore_errors then
                \<lparr>events = earlier @
                   (case callback of
                      None \<Rightarrow> []
                    | Some h \<Rightarrow> [Call h (message_dict (error_string r)) True srv (Some ctx) None]),
                 state = close c, raised = None\<rparr>
              else \<lparr>events = earlier, state = c, raised = None\<rparr>)
           else http_error_branch c r srv callback ctx earlier
         else success_branch c r srv callback ctx earlier)"

section \<open>What the handshake signals\<close>

text \<open>The handshake reports a mismatch by calling the caller's callback with the error
  flag and the message: \<open>NotGNS3Server\<close> when the remote server is not recognised,
  \<open>VersionDiffers\<close> when the versions are not compatible.\<close>

definition is_version_mismatch :: "event \<Rightarrow> bool" where
  "is_version_mismatch ev =
     (case ev of Call h (PMessage (VersionDiffers a b)) er sv cx rb \<Rightarrow> er | _ \<Rightarrow> False)"

definition version_mismatch_signalled :: "outcome \<Rightarrow> bool" where
  "version_mismatch_signalled out = list_ex is_version_mismatch (events out)"

definition is_protocol_mismatch :: "event \<Rightarrow> bool" where
  "is_protocol_mismatch ev =
     (case ev of Call h (PMessage (NotGNS3Server u)) er sv cx rb \<Rightarrow> er | _ \<Rightarrow> False)"

definition protocol_mismatch_signalled :: "outcome \<Rightarrow> bool" where
  "protocol_mismatch_signalled out = list_ex is_protocol_mismatch (events out)"

section \<open>Concrete inputs\<close>

text \<open>Modelled from the spec: \<^verbatim>\<open>parse_version\<close> of \<^verbatim>\<open>gns3.utils\<close> is not part of the
  module; the specification describes it as a pure function from a version string to a
  sequence of integers, compared component by component.  This one reads the leading digits
  of every dot-separated component.  It is used for the concrete inputs below only.\<close>

fun split_on :: "char \<Rightarrow> string \<Rightarrow> string list" where
  "split_on sep [] = [[]]"
| "split_on sep (c # s) =
     (if c = sep then [] # split_on sep s
      else (case split_on sep s of p # ps \<Rightarrow> (c # p) # ps | [] \<Rightarrow> [[c]]))"

definition parse_version_dotted :: "string \<Rightarrow> int list" where
  "parse_version_dotted s = map (\<lambda>p. int (nat_of_digits (takeWhile is_digit p))) (split_on (CHR ''.'') s)"

text \<open>A development build and a stable build of the client, a client that is not
  connected, and a query with a callback.\<close>

definition dev_env :: env where
  "dev_env = \<lparr>version = ''2.0.0dev1'', version_info = [2, 0, 0, -99],
     parse_version = parse_version_dotted, ipv6_address = (\<lambda>s. False), b64encode = id,
     progress_callback = None\<rparr>"

definition stable_env :: env where
  "stable_env = dev_env\<lparr>version := ''2.0.0'', version_info := [2, 0, 0, 0]\<rparr>"

definition client0 :: client where
  "client0 = \<lparr>protocol = ''http'', host = ''localhost'', port = 3080, user = None,
     password = None, connected = False, buffer = Map.empty\<rparr>"

definition query0 :: query where
  "query0 = \<lparr>q_method = ''GET'', q_path = ''/projects'', q_callback = Some 7, q_body = BDict [],
     q_context = empty_context, q_options = default_options\<rparr>"

text \<open>A reply for a connection that was refused, and the context of a running query.\<close>

definition refused_reply :: reply where
  "refused_reply = \<lparr>net_error = 1, error_string = ''Connection refused'', http_status = None,
     read_all = [], content_type = None\<rparr>"

definition ctx1 :: rcontext where
  "ctx1 = \<lparr>query_id = Some ''q1'', entries = []\<rparr>"

text \<open>A reply that delivers one chunk of a JSON feed, the body of a bad request that
  names a fingerprint, a reply with status 400 carrying it, and a success reply whose body
  is labelled JSON and is not JSON.\<close>

definition chunk_reply :: "string \<Rightarrow> reply" where
  "chunk_reply bs = \<lparr>net_error = 0, error_string = [], http_status = Some 200,
     read_all = bs, content_type = Some ''application/json''\<rparr>"

definition fingerprint_body :: string where
  "fingerprint_body = ''{\"path\": \"/some/fingerprint\"}''"

definition bad_request_reply :: "string option \<Rightarrow> reply" where
  "bad_request_reply ct = \<lparr>net_error = 302, error_string = ''Bad Request'', http_status = Some 400,
     read_all = fingerprint_body, content_type = ct\<rparr>"

definition html_reply :: reply where
  "html_reply = \<lparr>net_error = 0, error_string = [], http_status = Some 200,
     read_all = ''<html>'', content_type = Some ''application/json''\<rparr>"

subsection \<open>The success path that does not reach the callback\<close>

text \<open>The reply has no error flag, its body is not blank and is labelled
  \<^verbatim>\<open>application/json\<close>, and \<^verbatim>\<open>json.loads\<close> rejects it.  \<^verbatim>\<open>_processResponse\<close> calls
  \<^verbatim>\<open>json.loads\<close> outside any \<^verbatim>\<open>try\<close> on this path.\<close>

definition json_rejected_on_success :: "reply \<Rightarrow> bool" where
  "json_rejected_on_success r =
     (net_error r = 0 \<and> truthy (decode_body (read_all r))
      \<and> length (strip {CHR '' '', CHR 0x0A, CHR 0x09} (the (decode_body (read_all r)))) > 0
      \<and> content_type r = Some ''application/json''
      \<and> isl (json_loads (the (decode_body (read_all r)))))"

subsection \<open>An IPv6 literal recogniser\<close>

text \<open>The strings that \<^verbatim>\<open>ipaddress.IPv6Address\<close> accepts (Python 3.5, the version the
  module was written for; a scope after \<^verbatim>\<open>%\<close> is not part of an address there): at least
  three colon-separated parts, an optional dotted IPv4 suffix, at most one \<^verbatim>\<open>::\<close>
  standing for one or more groups, groups of one to four hexadecimal digits.  The
  methods take the verdict as the parameter \<open>ipv6_address\<close>; this recogniser is used for
  the concrete inputs only.\<close>

definition hextet_ok :: "string \<Rightarrow> bool" where
  "hextet_ok p = (p \<noteq> [] \<and> length p \<le> 4 \<and> list_all (\<lambda>c. hex_val c \<noteq> None) p)"

definition octet_ok :: "string \<Rightarrow> bool" where
  "octet_ok p =
     (p \<noteq> [] \<and> list_all is_digit p \<and> length p \<le> 3
      \<and> \<not> (nat_of_digits p > 7 \<and> hd p = CHR ''0'') \<and> nat_of_digits p \<le> 255)"

definition IPv4Address_ok :: "string \<Rightarrow> bool" where
  "IPv4Address_ok s = (let os = split_on (CHR ''.'') s in length os = 4 \<and> list_all octet_ok os)"

definition IPv6Address_ok :: "string \<Rightarrow> bool" where
  "IPv6Address_ok s =
     (s \<noteq> [] \<and> CHR ''/'' \<notin> set s \<and>
      (let parts0 = split_on (CHR '':'') s;
           dotted = (CHR ''.'' \<in> set (last parts0));
           parts = (if dotted then butlast parts0 @ [''0'', ''0''] else parts0);
           n = length parts;
           skips = filter (\<lambda>i. parts ! i = []) [1..<n - 1]
       in 3 \<le> length parts0
          \<and> (dotted \<longrightarrow> IPv4Address_ok (last parts0))
          \<and> n \<le> 9
          \<and> (case skips of
                [] \<Rightarrow> n = 8 \<and> list_all hextet_ok parts
              | [i] \<Rightarrow>
                  (let hi = (if parts ! 0 = [] then i - 1 else i);
                       lo = (if last parts = [] then n - i - 2 else n - i - 1)
                   in (parts ! 0 = [] \<longrightarrow> hi = 0) \<and> (last parts = [] \<longrightarrow> lo = 0)
                      \<and> hi + lo \<le> 7
                      \<and> list_all hextet_ok (take hi parts)
                      \<and> list_all hextet_ok (drop (n - lo) parts))
              | _ \<Rightarrow> False)))"

definition ipv6_env :: env where
  "ipv6_env = dev_env\<lparr>ipv6_address := IPv6Address_ok\<rparr>"

subsection \<open>The requests among the effects\<close>

text \<open>The requests a method hands to the network layer, and the property of the claim
  about the default body: the payload is the two bytes \<^verbatim>\<open>{}\<close>, with the headers
  \<^verbatim>\<open>Content-Type: application/json\<close> and \<^verbatim>\<open>Content-Length: 2\<close>.\<close>

definition sent_of :: "event \<Rightarrow> sent option" where
  "sent_of ev = (case ev of Send rq \<Rightarrow> Some rq | _ \<Rightarrow> None)"

definition sends :: "outcome \<Rightarrow> sent list" where
  "sends out = List.map_filter sent_of (events out)"

definition carries_empty_mapping :: "sent \<Rightarrow> bool" where
  "carries_empty_mapping rq =
     (s_payload rq = Some (Buffer ''{}'')
      \<and> map_of (s_headers rq) ''Content-Type'' = Some ''application/json''
      \<and> map_of (s_headers rq) ''Content-Length'' = Some ''2'')"

subsection \<open>A reply delivered in chunks\<close>

text \<open>The chunks of one reply reach \<^verbatim>\<open>_processDownloadProgress\<close> one after the other, on
  the same client, with the same callback and context; every reply of the list holds the
  bytes of one chunk.  A chunk that raises ends the delivery.\<close>

fun deliver :: "env \<Rightarrow> client \<Rightarrow> reply list \<Rightarrow> nat \<Rightarrow> rcontext \<Rightarrow> nat option \<Rightarrow> outcome" where
  "deliver e c [] callback ctx srv = \<lparr>events = [], state = c, raised = None\<rparr>"
| "deliver e c (r # rs) callback ctx srv =
     (let out = processDownloadProgress e c r callback ctx srv
      in if raised out \<noteq> None then out
         else (let out' = deliver e (state out) rs callback ctx srv
               in out'\<lparr>events := events out @ events out'\<rparr>))"

text \<open>A bare number is a number that is a whole JSON text, not part of an array or
  object: the only kind of value of which a proper prefix can be a value too.\<close>

definition bare_number :: "json \<Rightarrow> bool" where
  "bare_number v = (case v of JInt i \<Rightarrow> True | JFloat f \<Rightarrow> True | _ \<Rightarrow> False)"

definition is_bare_number_call :: "event \<Rightarrow> bool" where
  "is_bare_number_call ev = (case ev of Call h (PJson v) er sv cx rb \<Rightarrow> bare_number v | _ \<Rightarrow> False)"

definition delivers_bare_number :: "outcome \<Rightarrow> bool" where
  "delivers_bare_number out = list_ex is_bare_number_call (events out)"

text \<open>The text waiting in the buffer for a query, and the callback invocation for one
  decoded value.\<close>

definition pending_text :: "client \<Rightarrow> string \<Rightarrow> string" where
  "pending_text c qid = (case buffer c qid of None \<Rightarrow> [] | Some b \<Rightarrow> b)"

definition answer_call :: "nat \<Rightarrow> nat option \<Rightarrow> rcontext \<Rightarrow> json \<Rightarrow> event" where
  "answer_call callback srv ctx a = Call (UserCallback callback) (PJson a) False srv (Some ctx) None"

text \<open>Auxiliary notions for the scanner: a text that cannot continue a number, and the
  stack of a scanner state.\<close>

definition after_number :: "string \<Rightarrow> bool" where
  "after_number r = (r \<noteq> [] \<and> hd r \<noteq> CHR ''.'' \<and> hd r \<noteq> CHR ''e'' \<and> hd r \<noteq> CHR ''E'')"

fun stack_of :: "pstate \<Rightarrow> frame list" where
  "stack_of (ExpectValue K) = K"
| "stack_of (AfterValue v K) = K"

section \<open>Properties\<close>

subsection \<open>Callback invocations among the effects\<close>

lemma is_call_simps [simp]:
  "is_call (Call h p er sv cx rb)" "\<not> is_call (ProgressStart a b)" "\<not> is_call (ProgressEnd a)"
  "\<not> is_call CancelObserver" "\<not> is_call (Send rq)" "\<not> is_call ConnectedSignal"
  "\<not> is_call (LogError m)" "\<not> is_call (LogWarning m)"
  by (simp_all add: is_call_def)

lemma calls_progress_end [simp]: "filter is_call (notify_progress_end_query e qid) = []"
  by (simp add: notify_progress_end_query_def)

lemma calls_progress_start [simp]: "filter is_call (notify_progress_start_query e qid t) = []"
  by (simp add: notify_progress_start_query_def)

lemma calls_earlier [simp]:
  "filter is_call (case query_id ctx of None \<Rightarrow> [] | Some qid \<Rightarrow> notify_progress_end_query e qid) = []"
  by (simp split: option.splits)

lemma mismatch_is_call:
  "is_version_mismatch ev \<Longrightarrow> is_call ev" "is_protocol_mismatch ev \<Longrightarrow> is_call ev"
  by (cases ev; simp add: is_version_mismatch_def is_protocol_mismatch_def)+

lemma executeHTTPQuery_no_calls: "filter is_call (events (executeHTTPQuery e c qid m p cb body ctx opts)) = []"
  by (simp add: executeHTTPQuery_def Let_def split: sum.splits prod.splits)

lemma no_calls_no_signal:
  assumes "filter is_call evs = []"
  shows "\<not> list_ex is_version_mismatch evs" "\<not> list_ex is_protocol_mismatch evs"
proof -
  from assms have "\<forall>ev \<in> set evs. \<not> is_call ev" by (simp add: filter_empty_conv)
  then show "\<not> list_ex is_version_mismatch evs" "\<not> list_ex is_protocol_mismatch evs"
    by (auto simp: list_ex_iff dest: mismatch_is_call)
qed

lemma proceed_events:
  "events (proceed e c qid q srv evs) =
     evs @ [ConnectedSignal] @ events (executeHTTPQuery e (c\<lparr>connected := True\<rparr>) qid (q_method q) (q_path q)
        (map_option UserCallback (q_callback q)) (q_body q) (q_context q) ((q_options q)\<lparr>server := srv\<rparr>))"
  by (simp add: proceed_def Let_def)

lemma executeHTTPQuery_state [simp]: "state (executeHTTPQuery e c qid m p cb body ctx opts) = c"
  by (simp add: executeHTTPQuery_def Let_def split: sum.splits prod.splits)

lemma proceed_state: "connected (state (proceed e c qid q srv evs))"
  by (simp add: proceed_def Let_def)

lemma proceed_no_signal:
  assumes "filter is_call evs = []"
  shows "\<not> version_mismatch_signalled (proceed e c qid q srv evs)"
    and "\<not> protocol_mismatch_signalled (proceed e c qid q srv evs)"
proof -
  have "filter is_call (events (proceed e c qid q srv evs)) = []"
    using assms by (simp add: proceed_events executeHTTPQuery_no_calls)
  from no_calls_no_signal[OF this] show "\<not> version_mismatch_signalled (proceed e c qid q srv evs)"
    and "\<not> protocol_mismatch_signalled (proceed e c qid q srv evs)"
    by (simp_all add: version_mismatch_signalled_def protocol_mismatch_signalled_def)
qed

subsection \<open>Handshake: recognising the server\<close>

text \<open>
  Claim C7, as amended.  When the bootstrap request did not fail and the membership tests
  on the decoded body do not raise, the handshake signals that the remote server is not a
  GNS3 server exactly when the body lacks the \<^verbatim>\<open>version\<close> field or the \<^verbatim>\<open>local\<close> field
  (at least one of them, not only both); it then logs the message, calls the callback once
  with the error flag, leaves the client unconnected and sends nothing.  A body with both
  fields is not rejected at this step.
\<close>

theorem protocol_mismatch_iff_a_field_is_missing:
  assumes "py_contains ''version'' params = Inr has_version"
      and "py_contains ''local'' params = Inr has_local"
      and "q_callback q = Some cb"
  shows "(protocol_mismatch_signalled (callbackConnect e c qid q params False srv)
            \<longleftrightarrow> \<not> (has_version \<and> has_local))
       \<and> (\<not> (has_version \<and> has_local) \<longrightarrow>
            callbackConnect e c qid q params False srv
              = \<lparr>events = [LogError (NotGNS3Server (url c)),
                           Call (UserCallback cb) (PMessage (NotGNS3Server (url c))) True srv None None],
                 state = c, raised = None\<rparr>)"
proof (cases "has_version \<and> has_local")
  case False
  with assms show ?thesis
    by (auto simp: callbackConnect_def reject_def protocol_mismatch_signalled_def is_protocol_mismatch_def)
next
  case True
  have np: "\<not> protocol_mismatch_signalled (proceed e c qid q srv evs)" if "filter is_call evs = []" for evs
    using proceed_no_signal[OF that] by simp
  have "\<not> protocol_mismatch_signalled (callbackConnect e c qid q params False srv)"
    using assms True
    by (auto simp: callbackConnect_def Let_def reject_def np
        protocol_mismatch_signalled_def[of "\<lparr>events = _, state = _, raised = _\<rparr>"] is_protocol_mismatch_def
        split: sum.splits json.splits)
  with True show ?thesis by simp
qed

theorem protocol_mismatch_witness:
  "py_contains ''version'' (JObject [(''version'', JString ''2.0.0'')]) = Inr True
   \<and> py_contains ''local'' (JObject [(''version'', JString ''2.0.0'')]) = Inr False
   \<and> q_callback query0 = Some 7
   \<and> protocol_mismatch_signalled
        (callbackConnect stable_env client0 ''q1'' query0 (JObject [(''version'', JString ''2.0.0'')]) False None)
   \<and> py_contains ''local'' (JObject [(''version'', JString ''2.0.0''), (''local'', JBool True)]) = Inr True
   \<and> \<not> protocol_mismatch_signalled
        (callbackConnect stable_env client0 ''q1'' query0
           (JObject [(''version'', JString ''2.0.0''), (''local'', JBool True)]) False None)"
proof -
  have v: "py_contains ''version'' (JObject [(''version'', JString ''2.0.0'')]) = Inr True"
    by (simp add: py_contains_def)
  have l: "py_contains ''local'' (JObject [(''version'', JString ''2.0.0'')]) = Inr False"
    by (simp add: py_contains_def)
  have v2: "py_contains ''version'' (JObject [(''version'', JString ''2.0.0''), (''local'', JBool True)]) = Inr True"
    by (simp add: py_contains_def)
  have l2: "py_contains ''local'' (JObject [(''version'', JString ''2.0.0''), (''local'', JBool True)]) = Inr True"
    by (simp add: py_contains_def)
  have cb: "q_callback query0 = Some 7" by (simp add: query0_def)
  from protocol_mismatch_iff_a_field_is_missing[OF v l cb, of stable_env client0 "''q1''" None]
  have s1: "protocol_mismatch_signalled
        (callbackConnect stable_env client0 ''q1'' query0 (JObject [(''version'', JString ''2.0.0'')]) False None)"
    by blast
  from protocol_mismatch_iff_a_field_is_missing[OF v2 l2 cb, of stable_env client0 "''q1''" None]
  have s2: "\<not> protocol_mismatch_signalled
        (callbackConnect stable_env client0 ''q1'' query0
           (JObject [(''version'', JString ''2.0.0''), (''local'', JBool True)]) False None)"
    by blast
  from v l l2 cb s1 s2 show ?thesis by blast
qed

text \<open>The claim as it was stated fails: a body that has the \<^verbatim>\<open>version\<close> field and lacks
  only \<^verbatim>\<open>local\<close> is rejected.\<close>

theorem protocol_mismatch_with_version_present:
  "py_contains ''version'' (JObject [(''version'', JString ''2.0.0'')]) = Inr True
   \<and> callbackConnect stable_env client0 ''q1'' query0 (JObject [(''version'', JString ''2.0.0'')]) False None
       = \<lparr>events = [LogError (NotGNS3Server ''http://localhost:3080''),
                    Call (UserCallback 7) (PMessage (NotGNS3Server ''http://localhost:3080'')) True None None None],
          state = client0, raised = None\<rparr>"
  by (simp add: py_contains_def callbackConnect_def reject_def query0_def url_def client0_def
      str_int_def digit_char_def)

subsection \<open>Transport failures\<close>



text \<open>With \<^verbatim>\<open>ignoreErrors\<close> set the same failure neither closes the connection nor
  reaches the callback.\<close>

lemma transport_failure_ignored:
  assumes "net_error r \<noteq> 0" and "net_error r < 200" and "ignore_errors"
  shows "state (processResponse e c r srv callback ctx ignore_errors) = c
       \<and> calls (processResponse e c r srv callback ctx ignore_errors) = []
       \<and> raised (processResponse e c r srv callback ctx ignore_errors) = None"
  using assms
  by (simp add: processResponse_def Let_def calls_def)

subsection \<open>Handshake: comparing versions\<close>

text \<open>
  Claim C2.  The bootstrap request did not fail, the decoded body is a dictionary with a
  \<^verbatim>\<open>local\<close> field and a string \<^verbatim>\<open>version\<close>, there is a callback, and the client's version
  information has a fourth component.  Then: equal version strings never signal a version
  mismatch, and the client connects; on a stable build (fourth component 0) any difference
  between the strings signals it; a difference in the first two parsed components signals
  it on every build; and on a build that is not stable, strings that differ while their
  first two parsed components agree do not signal it: a warning is logged and the client
  connects.  Where the mismatch is signalled the client is left as it was.
\<close>

lemma reject_events:
  "q_callback q = Some cb \<Longrightarrow> reject c (q_callback q) m srv = [Call (UserCallback cb) (PMessage m) True srv None None]"
  by (simp add: reject_def)

lemma signalled_record:
  "version_mismatch_signalled \<lparr>events = evs, state = s, raised = x\<rparr> = list_ex is_version_mismatch evs"
  by (simp add: version_mismatch_signalled_def)

theorem version_comparison:
  assumes "map_of kvs ''version'' = Some (JString sv)"
      and "''local'' \<in> set (map fst kvs)"
      and "q_callback q = Some cb"
      and "3 < length (version_info e)"
  shows "(sv = version e \<longrightarrow>
            \<not> version_mismatch_signalled (callbackConnect e c qid q (JObject kvs) False srv)
          \<and> connected (state (callbackConnect e c qid q (JObject kvs) False srv)))
       \<and> (version_info e ! 3 = 0 \<and> sv \<noteq> version e \<longrightarrow>
            version_mismatch_signalled (callbackConnect e c qid q (JObject kvs) False srv)
          \<and> state (callbackConnect e c qid q (JObject kvs) False srv) = c)
       \<and> (take 2 (parse_version e (version e)) \<noteq> take 2 (parse_version e sv) \<longrightarrow>
            version_mismatch_signalled (callbackConnect e c qid q (JObject kvs) False srv)
          \<and> state (callbackConnect e c qid q (JObject kvs) False srv) = c)
       \<and> (version_info e ! 3 \<noteq> 0 \<and> sv \<noteq> version e
            \<and> take 2 (parse_version e (version e)) = take 2 (parse_version e sv) \<longrightarrow>
            \<not> version_mismatch_signalled (callbackConnect e c qid q (JObject kvs) False srv)
          \<and> LogWarning VersionWarning \<in> set (events (callbackConnect e c qid q (JObject kvs) False srv))
          \<and> connected (state (callbackConnect e c qid q (JObject kvs) False srv)))"
proof -
  from assms(1) have v: "''version'' \<in> set (map fst kvs)"
    by (metis map_of_eq_None_iff option.distinct(1) set_map)
  have pre: "py_contains ''version'' (JObject kvs) = Inr True" "py_contains ''local'' (JObject kvs) = Inr True"
    "py_getitem (JObject kvs) ''version'' = Inr (JString sv)"
    using v assms(1,2) by (simp_all add: py_contains_def py_getitem_def)
  have same: "callbackConnect e c qid q (JObject kvs) False srv = proceed e c qid q srv []" if "sv = version e"
    using that pre by (simp add: callbackConnect_def)
  have stable: "callbackConnect e c qid q (JObject kvs) False srv
      = \<lparr>events = [LogError (VersionDiffers (version e) (JString sv)),
                   Call (UserCallback cb) (PMessage (VersionDiffers (version e) (JString sv))) True srv None None],
         state = c, raised = None\<rparr>"
    if "sv \<noteq> version e" "version_info e ! 3 = 0 \<or> take 2 (parse_version e (version e)) \<noteq> take 2 (parse_version e sv)"
    using that pre assms(3,4) by (auto simp: callbackConnect_def Let_def reject_def)
  have dev: "callbackConnect e c qid q (JObject kvs) False srv
      = proceed e c qid q srv [LogError (VersionDiffers (version e) (JString sv)), LogWarning VersionWarning]"
    if "sv \<noteq> version e" "version_info e ! 3 \<noteq> 0" "take 2 (parse_version e (version e)) = take 2 (parse_version e sv)"
    using that pre assms(3,4) by (simp add: callbackConnect_def Let_def)
  have sig: "version_mismatch_signalled
       \<lparr>events = [LogError (VersionDiffers (version e) (JString sv)),
                   Call (UserCallback cb) (PMessage (VersionDiffers (version e) (JString sv))) True srv None None],
         state = c, raised = None\<rparr>"
    by (simp add: version_mismatch_signalled_def is_version_mismatch_def)
  have differ: "sv \<noteq> version e" if "take 2 (parse_version e (version e)) \<noteq> take 2 (parse_version e sv)"
    using that by auto
  show ?thesis
  proof (intro conjI impI)
    assume "sv = version e"
    then show "\<not> version_mismatch_signalled (callbackConnect e c qid q (JObject kvs) False srv)"
      and "connected (state (callbackConnect e c qid q (JObject kvs) False srv))"
      using same proceed_no_signal(1)[of "[]" e c qid q srv] proceed_state by simp_all
  next
    assume a: "version_info e ! 3 = 0 \<and> sv \<noteq> version e"
    then show "version_mismatch_signalled (callbackConnect e c qid q (JObject kvs) False srv)"
      and "state (callbackConnect e c qid q (JObject kvs) False srv) = c"
      using stable sig by simp_all
  next
    assume a: "take 2 (parse_version e (version e)) \<noteq> take 2 (parse_version e sv)"
    then show "version_mismatch_signalled (callbackConnect e c qid q (JObject kvs) False srv)"
      and "state (callbackConnect e c qid q (JObject kvs) False srv) = c"
      using stable differ sig by simp_all
  next
    assume a: "version_info e ! 3 \<noteq> 0 \<and> sv \<noteq> version e
            \<and> take 2 (parse_version e (version e)) = take 2 (parse_version e sv)"
    then have d: "callbackConnect e c qid q (JObject kvs) False srv
      = proceed e c qid q srv [LogError (VersionDiffers (version e) (JString sv)), LogWarning VersionWarning]"
      using dev by simp
    show "\<not> version_mismatch_signalled (callbackConnect e c qid q (JObject kvs) False srv)"
      unfolding d by (rule proceed_no_signal(1)) simp
    show "LogWarning VersionWarning \<in> set (events (callbackConnect e c qid q (JObject kvs) False srv))"
      unfolding d by (simp add: proceed_events)
    show "connected (state (callbackConnect e c qid q (JObject kvs) False srv))"
      unfolding d by (rule proceed_state)
  qed
qed

theorem version_comparison_witness:
  "\<not> version_mismatch_signalled
       (callbackConnect stable_env client0 ''q1'' query0
          (JObject [(''version'', JString ''2.0.0''), (''local'', JBool True)]) False None)
   \<and> version_mismatch_signalled
       (callbackConnect stable_env client0 ''q1'' query0
          (JObject [(''version'', JString ''2.0.1''), (''local'', JBool True)]) False None)
   \<and> version_mismatch_signalled
       (callbackConnect dev_env client0 ''q1'' query0
          (JObject [(''version'', JString ''2.1.0''), (''local'', JBool True)]) False None)
   \<and> \<not> version_mismatch_signalled
       (callbackConnect dev_env client0 ''q1'' query0
          (JObject [(''version'', JString ''2.0.1''), (''local'', JBool True)]) False None)
   \<and> connected (state
       (callbackConnect dev_env client0 ''q1'' query0
          (JObject [(''version'', JString ''2.0.1''), (''local'', JBool True)]) False None))"
proof -
  have l: "''local'' \<in> set (map fst [(''version'', JString sv), (''local'', JBool True)])" for sv
    by simp
  have v: "map_of [(''version'', JString sv), (''local'', JBool True)] ''version'' = Some (JString sv)" for sv
    by simp
  have cb: "q_callback query0 = Some 7" by (simp add: query0_def)
  have n: "3 < length (version_info stable_env)" "3 < length (version_info dev_env)"
    by (simp_all add: stable_env_def dev_env_def)
  have s: "version stable_env = ''2.0.0''" "version_info stable_env ! 3 = 0"
    "version dev_env = ''2.0.0dev1''" "version_info dev_env ! 3 \<noteq> 0"
    by (simp_all add: stable_env_def dev_env_def)
  have p1: "take 2 (parse_version dev_env (version dev_env)) \<noteq> take 2 (parse_version dev_env ''2.1.0'')"
    by code_simp
  have p2: "take 2 (parse_version dev_env (version dev_env)) = take 2 (parse_version dev_env ''2.0.1'')"
    by code_simp
  from version_comparison[OF v l cb n(1), of "''2.0.0''" client0 "''q1''" None] s
  have a: "\<not> version_mismatch_signalled
       (callbackConnect stable_env client0 ''q1'' query0
          (JObject [(''version'', JString ''2.0.0''), (''local'', JBool True)]) False None)"
    by simp
  from version_comparison[OF v l cb n(1), of "''2.0.1''" client0 "''q1''" None] s
  have b: "version_mismatch_signalled
       (callbackConnect stable_env client0 ''q1'' query0
          (JObject [(''version'', JString ''2.0.1''), (''local'', JBool True)]) False None)"
    by simp
  from version_comparison[OF v l cb n(2), of "''2.1.0''" client0 "''q1''" None] p1
  have c: "version_mismatch_signalled
       (callbackConnect dev_env client0 ''q1'' query0
          (JObject [(''version'', JString ''2.1.0''), (''local'', JBool True)]) False None)"
    by blast
  from version_comparison[OF v l cb n(2), of "''2.0.1''" client0 "''q1''" None] p2 s
  have d: "\<not> version_mismatch_signalled
       (callbackConnect dev_env client0 ''q1'' query0
          (JObject [(''version'', JString ''2.0.1''), (''local'', JBool True)]) False None)
     \<and> connected (state
       (callbackConnect dev_env client0 ''q1'' query0
          (JObject [(''version'', JString ''2.0.1''), (''local'', JBool True)]) False None))"
    by simp
  from a b c d show ?thesis by blast
qed

subsection \<open>Evaluating the decoder on the concrete bodies\<close>

lemma decode_stream_empty_object: "decode_stream ''{}'' = ([JObject []], [])"
  by code_simp

lemma utf8_valid_fingerprint: "utf8_valid fingerprint_body"
  by code_simp

lemma strip_fingerprint: "strip {CHR 0x00} fingerprint_body = fingerprint_body"
  by (simp add: strip_def fingerprint_body_def)

lemma decode_body_fingerprint: "decode_body fingerprint_body = Some fingerprint_body"
  by (simp add: decode_body_def decode_utf8_def utf8_valid_fingerprint strip_fingerprint)

lemma loads_fingerprint:
  "json_loads fingerprint_body = Inr (JObject [(''path'', JString ''/some/fingerprint'')])"
  by code_simp

lemma bad_request_fingerprint:
  "bad_request (Some fingerprint_body)
     = HttpBadRequest (Some fingerprint_body) (Some (JString ''/some/fingerprint''))"
  by (simp add: bad_request_def loads_fingerprint py_getitem_def)


lemma bad_request_shape: "\<exists>fp. bad_request b = HttpBadRequest b fp"
  by (auto simp: bad_request_def split: option.splits sum.splits)

subsection \<open>The response classifier\<close>

lemma finish_simps [simp]:
  "events (finish c evs status body) = evs"
  "state (finish c evs status body) = c"
  "raised (finish c evs status body) = (if status = Some 400 then Some (bad_request body) else None)"
  by (simp_all add: finish_def)

lemma http_error_branch_call:
  assumes "filter is_call earlier = []"
  shows "\<exists>p. filter is_call (events (http_error_branch c r srv (Some h) ctx earlier))
            = [Call h p True srv (Some ctx) None]"
    and "raised (http_error_branch c r srv (Some h) ctx earlier)
           = (if http_status r = Some 400 then Some (bad_request (decode_body (read_all r))) else None)"
    and "state (http_error_branch c r srv (Some h) ctx earlier) = c"
  using assms by (simp_all add: http_error_branch_def Let_def)

lemma success_branch_call:
  assumes "filter is_call earlier = []" and "http_status r = Some st" and "\<not> json_rejected_on_success r"
      and "net_error r = 0"
  shows "\<exists>p. filter is_call (events (success_branch c r srv (Some h) ctx earlier))
            = [Call h p (st \<ge> 400) srv (Some ctx)
                 (if st \<ge> 400 then None else Some (decode_body (read_all r)))]"
    and "raised (success_branch c r srv (Some h) ctx earlier)
           = (if http_status r = Some 400 then Some (bad_request (decode_body (read_all r))) else None)"
    and "state (success_branch c r srv (Some h) ctx earlier) = c"
proof -
  let ?body = "decode_body (read_all r)"
  let ?parsed = "(if truthy ?body \<and> length (strip {CHR '' '', CHR 0x0A, CHR 0x09} (the ?body)) > 0
                       \<and> content_type r = Some ''application/json''
                    then json_loads (the ?body) else Inr (JObject []))"
  from assms(3,4) obtain params where p: "?parsed = Inr params"
    by (cases ?parsed) (auto simp: json_rejected_on_success_def split: if_splits)
  show "\<exists>p. filter is_call (events (success_branch c r srv (Some h) ctx earlier))
            = [Call h p (st \<ge> 400) srv (Some ctx)
                 (if st \<ge> 400 then None else Some (decode_body (read_all r)))]"
    using assms(1,2) p by (simp add: success_branch_def Let_def del: length_greater_0_conv)
  show "raised (success_branch c r srv (Some h) ctx earlier)
           = (if http_status r = Some 400 then Some (bad_request (decode_body (read_all r))) else None)"
    using assms(1,2) p by (simp add: success_branch_def Let_def del: length_greater_0_conv)
  show "state (success_branch c r srv (Some h) ctx earlier) = c"
    using assms(1,2) p by (simp add: success_branch_def Let_def del: length_greater_0_conv)
qed

text \<open>
  Claim C1, as amended.  For a completed request with a callback, unless the reply is a
  transport failure under \<^verbatim>\<open>ignoreErrors\<close>, provided a reply without error flag has an HTTP
  status and is not one whose JSON-labelled body fails to parse: the callback is invoked
  exactly once, with the error flag set exactly when the reply is flagged as an error or
  its status is 400 or more, and the only exception that leaves the handler is
  \<^verbatim>\<open>HttpBadRequest\<close>, raised after the callback when the status of an HTTP response is 400.
  Transport errors, HTTP errors and bodies that cannot be decoded on the error path all
  arrive through that one invocation.
\<close>

theorem one_callback_per_completion:
  assumes "callback = Some h"
      and "\<not> (net_error r \<noteq> 0 \<and> net_error r < 200 \<and> ignore_errors)"
      and "net_error r = 0 \<longrightarrow> http_status r \<noteq> None"
      and "\<not> json_rejected_on_success r"
  shows "(\<exists>p rb. calls (processResponse e c r srv callback ctx ignore_errors)
             = [Call h p (net_error r \<noteq> 0 \<or> 400 \<le> the (http_status r)) srv (Some ctx) rb])
       \<and> raised (processResponse e c r srv callback ctx ignore_errors)
           = (if http_status r = Some 400 \<and> (net_error r = 0 \<or> 200 \<le> net_error r)
              then Some (bad_request (decode_body (read_all r))) else None)"
proof -
  let ?earlier = "(case query_id ctx of None \<Rightarrow> [] | Some qid \<Rightarrow> notify_progress_end_query e qid)"
  have e: "filter is_call ?earlier = []" by simp
  consider (transport) "net_error r \<noteq> 0" "net_error r < 200" "\<not> ignore_errors"
    | (http) "net_error r \<noteq> 0" "200 \<le> net_error r"
    | (ok) "net_error r = 0"
    using assms(2) by fastforce
  then show ?thesis
  proof cases
    case transport
    then show ?thesis using assms(1)
      by (simp add: processResponse_def Let_def calls_def)
  next
    case http
    then have p: "processResponse e c r srv callback ctx ignore_errors
        = http_error_branch c r srv (Some h) ctx ?earlier"
      using assms(1) by (simp add: processResponse_def Let_def)
    from http_error_branch_call[OF e, of c r srv h ctx] http show ?thesis
      unfolding p calls_def by auto
  next
    case ok
    with assms(3) obtain st where st: "http_status r = Some st" by auto
    have p: "processResponse e c r srv callback ctx ignore_errors
        = success_branch c r srv (Some h) ctx ?earlier"
      using assms(1) ok by (simp add: processResponse_def Let_def)
    from success_branch_call[OF e st assms(4) ok, of c srv h ctx] ok st show ?thesis
      unfolding p calls_def by auto
  qed
qed

theorem one_callback_witness:
  "(\<exists>p rb. calls (processResponse dev_env client0 (bad_request_reply (Some ''application/json'')) None
                     (Some (UserCallback 7)) ctx1 False)
             = [Call (UserCallback 7) p True None (Some ctx1) rb])
   \<and> raised (processResponse dev_env client0 (bad_request_reply (Some ''application/json'')) None
                     (Some (UserCallback 7)) ctx1 False)
       = Some (HttpBadRequest (Some fingerprint_body) (Some (JString ''/some/fingerprint'')))"
proof -
  let ?r = "bad_request_reply (Some ''application/json'')"
  have a: "Some (UserCallback 7) = Some (UserCallback 7)" by simp
  have b: "\<not> (net_error ?r \<noteq> 0 \<and> net_error ?r < 200 \<and> False)" by simp
  have c: "net_error ?r = 0 \<longrightarrow> http_status ?r \<noteq> None" by (simp add: bad_request_reply_def)
  have d: "\<not> json_rejected_on_success ?r"
    by (simp add: json_rejected_on_success_def bad_request_reply_def)
  have e: "net_error ?r \<noteq> 0 \<or> 400 \<le> the (http_status ?r)" "http_status ?r = Some 400"
    "net_error ?r = 0 \<or> 200 \<le> net_error ?r" "read_all ?r = fingerprint_body"
    by (simp_all add: bad_request_reply_def)
  from one_callback_per_completion[OF a b c d, of dev_env client0 None ctx1] e
  show ?thesis by (simp add: decode_body_fingerprint bad_request_fingerprint)
qed

text \<open>The claim as it was stated fails by design where \<^verbatim>\<open>ignoreErrors\<close> is set: a
  transport failure then completes the request without any callback invocation.\<close>

theorem no_callback_when_errors_ignored:
  "calls (processResponse dev_env client0 refused_reply None (Some (UserCallback 7)) ctx1 True) = []
   \<and> raised (processResponse dev_env client0 refused_reply None (Some (UserCallback 7)) ctx1 True) = None"
  by (simp add: processResponse_def refused_reply_def calls_def Let_def)

text \<open>On the path left out above the decode error escapes: a reply with status 200 and
  the body \<^verbatim>\<open><html>\<close> labelled \<^verbatim>\<open>application/json\<close> raises \<^verbatim>\<open>ValueError\<close> and the callback is
  never invoked, while the error path catches the same failure of \<^verbatim>\<open>json.loads\<close>.\<close>

lemma unparsable_json_on_success_escapes:
  "calls (processResponse dev_env client0 html_reply None (Some (UserCallback 7)) ctx1 False) = []
   \<and> raised (processResponse dev_env client0 html_reply None (Some (UserCallback 7)) ctx1 False)
       = Some ValueError"
  by code_simp

subsection \<open>Bad requests\<close>




subsection \<open>The buffer of the streaming decoder\<close>

lemma lstrip_idem [simp]: "lstrip cs (lstrip cs s) = lstrip cs s"
  by (simp add: lstrip_def dropWhile_idem)

lemma decode_stream_rest:
  "decode_stream s = (vs, r) \<Longrightarrow> lstrip ws_chars r = r \<and> (\<exists>x. raw_decode r = Inl x)"
proof (induction s arbitrary: vs r rule: decode_stream.induct)
  case (1 content)
  let ?c = "lstrip ws_chars content"
  show ?case
  proof (cases "raw_decode ?c")
    case (Inl x)
    with 1(2) have "r = ?c" by (subst (asm) decode_stream.simps) (simp add: Let_def)
    with Inl show ?thesis by simp
  next
    case (Inr p)
    obtain a i where p: "p = (a, i)" by (cases p)
    obtain vs' r' where d: "decode_stream (drop i ?c) = (vs', r')" by (cases "decode_stream (drop i ?c)")
    with 1(2) Inr p have "r = r'"
      by (subst (asm) decode_stream.simps) (simp add: Let_def)
    with 1(1)[OF refl Inr p[symmetric] d] show ?thesis by simp
  qed
qed

text \<open>
  Claim C8, as amended.  After every chunk that passes the guards of the streaming decoder
  (no error flag, status below 300, content type \<^verbatim>\<open>application/json\<close>, bytes that decode as
  UTF-8, a context with a query id), the buffer holds an entry for that query id: the text
  left when nothing more could be decoded, which has no leading whitespace, from which no
  value can be decoded, and which may be empty.  The entries of other queries are
  unchanged, and no entry is ever deleted.
\<close>

theorem buffer_entry_after_chunk:
  assumes "net_error r = 0" and "http_status r = Some status" and "status < 300"
      and "content_type r = Some ''application/json''" and "utf8_valid (read_all r)"
      and "query_id ctx = Some qid"
  shows "buffer (state (processDownloadProgress e c r callback ctx srv)) qid
           = Some (snd (decode_stream (case buffer c qid of None \<Rightarrow> read_all r | Some b \<Rightarrow> b @ read_all r)))
       \<and> (\<forall>rest. buffer (state (processDownloadProgress e c r callback ctx srv)) qid = Some rest
             \<longrightarrow> lstrip ws_chars rest = rest \<and> (\<exists>x. raw_decode rest = Inl x))
       \<and> (\<forall>k. k \<noteq> qid \<longrightarrow> buffer (state (processDownloadProgress e c r callback ctx srv)) k = buffer c k)
       \<and> dom (buffer (state (processDownloadProgress e c r callback ctx srv))) = insert qid (dom (buffer c))"
proof -
  let ?t = "(case buffer c qid of None \<Rightarrow> read_all r | Some b \<Rightarrow> b @ read_all r)"
  obtain vs rest where d: "decode_stream ?t = (vs, rest)" by (cases "decode_stream ?t")
  have st: "state (processDownloadProgress e c r callback ctx srv) = c\<lparr>buffer := (buffer c)(qid \<mapsto> rest)\<rparr>"
    using assms d by (simp add: processDownloadProgress_def decode_utf8_def Let_def)
  from decode_stream_rest[OF d] show ?thesis
    unfolding st using d by auto
qed

theorem buffer_entry_witness:
  "buffer (state (processDownloadProgress dev_env client0 (chunk_reply ''{\"a'') 7 ctx1 None)) ''q1''
     = Some ''{\"a''
   \<and> dom (buffer (state (processDownloadProgress dev_env client0 (chunk_reply ''{\"a'') 7 ctx1 None)))
     = {''q1''}"
proof -
  let ?r = "chunk_reply ''{\"a''"
  have a: "net_error ?r = 0" "http_status ?r = Some 200" "(200::int) < 300"
    "content_type ?r = Some ''application/json''" "query_id ctx1 = Some ''q1''"
    by (simp_all add: chunk_reply_def ctx1_def)
  have u: "utf8_valid (read_all ?r)" by code_simp
  have d: "decode_stream ''{\"a'' = ([], ''{\"a'')" by code_simp
  from buffer_entry_after_chunk[OF a(1) a(2) a(3) a(4) u a(5), of dev_env client0 7 None]
  show ?thesis by (simp add: client0_def chunk_reply_def d)
qed

text \<open>The claim as it was stated fails: after the complete chunk \<^verbatim>\<open>{}\<close> the entry of
  the query is present and holds the empty string.\<close>

theorem empty_buffer_entry_is_kept:
  "buffer (state (processDownloadProgress dev_env client0 (chunk_reply ''{}'') 7 ctx1 None)) ''q1'' = Some []
   \<and> events (processDownloadProgress dev_env client0 (chunk_reply ''{}'') 7 ctx1 None)
       = [Call (UserCallback 7) (PJson (JObject [])) False None (Some ctx1) None]"
proof -
  have u: "utf8_valid ''{}''" by code_simp
  show ?thesis
    by (simp add: processDownloadProgress_def chunk_reply_def ctx1_def client0_def decode_utf8_def u
          decode_stream_empty_object dev_env_def Let_def del: utf8_valid.simps)
qed

subsection \<open>The host of the request URL\<close>

lemma rsplit_last_head_split:
  assumes "sep \<notin> set zone"
  shows "rsplit_last_head sep (ip @ sep # zone) = ip"
proof -
  have "dropWhile (\<lambda>c. c \<noteq> sep) (rev zone @ sep # rev ip) = sep # rev ip"
  proof -
    have "dropWhile (\<lambda>c. c \<noteq> sep) (rev zone @ sep # rev ip) = dropWhile (\<lambda>c. c \<noteq> sep) (sep # rev ip)"
      using assms by (intro dropWhile_append2) auto
    then show ?thesis by simp
  qed
  then show ?thesis by (simp add: rsplit_last_head_def)
qed

lemma rsplit_last_head_none: "sep \<notin> set h \<Longrightarrow> rsplit_last_head sep h = h"
  by (simp add: rsplit_last_head_def)

text \<open>
  Claim C9.  The host is read up to its last \<^verbatim>\<open>%\<close> (\<open>ip @ ''%'' @ zone\<close> gives \<open>ip\<close>
  when \<open>zone\<close> has no \<^verbatim>\<open>%\<close>; a host without \<^verbatim>\<open>%\<close> is read whole).  When that part is
  an IPv6 literal, the URL has it between brackets and the zone is dropped; otherwise the
  URL has the configured host unchanged.  The URL is
  \<^verbatim>\<open>protocol://[user@]host:port/v2path\<close>.  For the host \<^verbatim>\<open>fe80::1%eth0\<close> the host part is
  \<^verbatim>\<open>[fe80::1]\<close>.
\<close>

theorem ipv6_host_is_bracketed:
  "(ipv6_address e (rsplit_last_head (CHR ''%'') (host c)) \<longrightarrow>
       url_host e c = ''['' @ rsplit_last_head (CHR ''%'') (host c) @ '']'')
   \<and> (\<not> ipv6_address e (rsplit_last_head (CHR ''%'') (host c)) \<longrightarrow> url_host e c = host c)
   \<and> (CHR ''%'' \<notin> set zone \<longrightarrow> rsplit_last_head (CHR ''%'') (ip @ CHR ''%'' # zone) = ip)
   \<and> (CHR ''%'' \<notin> set h \<longrightarrow> rsplit_last_head (CHR ''%'') h = h)
   \<and> request_url e c path
        = protocol c @ ''://'' @ (if truthy (user c) then the (user c) @ ''@'' else [])
            @ url_host e c @ '':'' @ str_int (port c) @ ''/v2'' @ path
   \<and> (host c = ''fe80::1%eth0'' \<and> ipv6_address e ''fe80::1'' \<longrightarrow> url_host e c = ''[fe80::1]'')"
proof -
  have ex: "rsplit_last_head (CHR ''%'') ''fe80::1%eth0'' = ''fe80::1''"
    using rsplit_last_head_split[of "CHR ''%''" "''eth0''" "''fe80::1''"] by simp
  show ?thesis
    by (auto simp: url_host_def request_url_def Let_def rsplit_last_head_split rsplit_last_head_none ex)
qed

theorem ipv6_host_witness:
  "ipv6_address ipv6_env ''fe80::1''
   \<and> request_url ipv6_env (client0\<lparr>host := ''fe80::1%eth0''\<rparr>) ''/version''
       = ''http://[fe80::1]:3080/v2/version''
   \<and> CHR ''%'' \<notin> set (request_url ipv6_env (client0\<lparr>host := ''fe80::1%eth0''\<rparr>) ''/version'')
   \<and> \<not> ipv6_address ipv6_env (rsplit_last_head (CHR ''%'') ''localhost'')
   \<and> request_url ipv6_env client0 ''/version'' = ''http://localhost:3080/v2/version''"
proof -
  let ?c = "client0\<lparr>host := ''fe80::1%eth0''\<rparr>"
  have a: "ipv6_address ipv6_env ''fe80::1''" by code_simp
  have h: "host ?c = ''fe80::1%eth0''" by simp
  have b: "\<not> ipv6_address ipv6_env (rsplit_last_head (CHR ''%'') (host client0))" by code_simp
  have p: "str_int (port client0) = ''3080''" by code_simp
  from ipv6_host_is_bracketed[of ipv6_env ?c "[]" "[]" "[]" "''/version''"] a h
  have u1: "url_host ipv6_env ?c = ''[fe80::1]''" by blast
  from ipv6_host_is_bracketed[of ipv6_env client0 "[]" "[]" "[]" "''/version''"] b
  have u2: "url_host ipv6_env client0 = host client0" by blast
  have r1: "request_url ipv6_env ?c ''/version'' = ''http://[fe80::1]:3080/v2/version''"
    using ipv6_host_is_bracketed[of ipv6_env ?c "[]" "[]" "[]" "''/version''"] u1 p
    by (simp add: client0_def truthy_def)
  have r2: "request_url ipv6_env client0 ''/version'' = ''http://localhost:3080/v2/version''"
    using ipv6_host_is_bracketed[of ipv6_env client0 "[]" "[]" "[]" "''/version''"] u2 p
    by (simp add: client0_def truthy_def)
  from a b r1 r2 show ?thesis by (simp add: client0_def)
qed

subsection \<open>The default body\<close>

lemma py_len_empty_dict: "py_len ''{}'' = 2"
  by (simp add: py_len_def byte_def)

lemma str_nat_2: "str_nat 2 = ''2''"
  by (simp add: digit_char_def)

lemma utf8_valid_empty_dict: "utf8_valid ''{}''"
  by (simp add: byte_def)

lemma addBodyToRequest_empty_dict:
  "addBodyToRequest (BDict []) hs
     = Inr (Some (Buffer ''{}''),
            setRawHeader ''Content-Length'' ''2'' (setRawHeader ''Content-Type'' ''application/json'' hs))"
  using utf8_valid_empty_dict
  by (simp add: addBodyToRequest_def py_len_empty_dict str_nat_2 encode_utf8_def Let_def
        del: utf8_valid.simps str_nat.simps)

lemma sends_of_append [simp]: "List.map_filter sent_of (xs @ ys) = List.map_filter sent_of xs @ List.map_filter sent_of ys"
  by (simp add: List.map_filter_def)

lemma sends_of_Nil [simp]: "List.map_filter sent_of [] = []"
  by (simp add: List.map_filter_def)

lemma sends_of_Cons [simp]:
  "List.map_filter sent_of (ev # evs)
     = (case sent_of ev of None \<Rightarrow> List.map_filter sent_of evs | Some rq \<Rightarrow> rq # List.map_filter sent_of evs)"
  by (simp add: List.map_filter_def split: option.splits)

lemma sent_of_simps [simp]:
  "sent_of (Send rq) = Some rq" "sent_of (Call h pl er sv cx rb) = None"
  "sent_of (ProgressStart a b) = None" "sent_of (ProgressEnd a) = None" "sent_of CancelObserver = None"
  "sent_of ConnectedSignal = None" "sent_of (LogError m) = None" "sent_of (LogWarning m) = None"
  by (simp_all add: sent_of_def)

lemma sends_progress_start [simp]:
  "List.map_filter sent_of (notify_progress_start_query e qid t) = []"
  by (simp add: notify_progress_start_query_def)

lemma sends_connectionError [simp]: "List.map_filter sent_of (connectionError c cb msg srv) = []"
  by (simp add: connectionError_def Let_def split: option.splits)

lemma sends_reject [simp]: "List.map_filter sent_of (reject c cb m srv) = []"
  by (simp add: reject_def split: option.splits)

lemma sends_record [simp]: "sends \<lparr>events = evs, state = s, raised = x\<rparr> = List.map_filter sent_of evs"
  by (simp add: sends_def)

lemma executeHTTPQuery_empty_dict:
  "sends (executeHTTPQuery e c qid m p cb (BDict []) ctx opts)
     = [\<lparr>s_method = m, s_url = request_url e c p,
         s_headers = setRawHeader ''Content-Length'' ''2''
            (setRawHeader ''Content-Type'' ''application/json''
               (setRawHeader ''User-Agent'' (''GNS3 QT Client v'' @ version e) (addAuth e c []))),
         s_payload = Some (Buffer ''{}''), s_finished = cb, s_context = ctx\<lparr>query_id := Some qid\<rparr>,
         s_options = opts\<rparr>]"
  by (simp add: executeHTTPQuery_def addBodyToRequest_empty_dict Let_def)

lemma carries_after_set:
  "carries_empty_mapping \<lparr>s_method = m, s_url = u,
         s_headers = setRawHeader ''Content-Length'' ''2'' (setRawHeader ''Content-Type'' ''application/json'' hs),
         s_payload = Some (Buffer ''{}''), s_finished = cb, s_context = cx, s_options = opts\<rparr>"
  by (simp add: carries_empty_mapping_def setRawHeader_def update_conv')

lemma executeHTTPQuery_carries:
  "\<exists>rq. sends (executeHTTPQuery e c qid m p cb (BDict []) ctx opts) = [rq]
        \<and> carries_empty_mapping rq \<and> s_method rq = m \<and> s_finished rq = cb"
  unfolding executeHTTPQuery_empty_dict using carries_after_set by simp

lemma sends_proceed:
  assumes "List.map_filter sent_of evs = []"
  shows "sends (proceed e c qid q srv evs)
     = sends (executeHTTPQuery e (c\<lparr>connected := True\<rparr>) qid (q_method q) (q_path q)
        (map_option UserCallback (q_callback q)) (q_body q) (q_context q) ((q_options q)\<lparr>server := srv\<rparr>))"
  using assms by (simp add: sends_def proceed_events)

lemma callbackConnect_sends:
  "sends (callbackConnect e c qid q params err srv) = []
   \<or> sends (callbackConnect e c qid q params err srv)
     = sends (executeHTTPQuery e (c\<lparr>connected := True\<rparr>) qid (q_method q) (q_path q)
        (map_option UserCallback (q_callback q)) (q_body q) (q_context q) ((q_options q)\<lparr>server := srv\<rparr>))"
proof -
  have a: "sends (proceed e c qid q srv []) = sends (executeHTTPQuery e (c\<lparr>connected := True\<rparr>) qid (q_method q) (q_path q)
        (map_option UserCallback (q_callback q)) (q_body q) (q_context q) ((q_options q)\<lparr>server := srv\<rparr>))"
    by (rule sends_proceed) simp
  have b: "sends (proceed e c qid q srv [LogError m, LogWarning VersionWarning]) = sends (executeHTTPQuery e (c\<lparr>connected := True\<rparr>) qid (q_method q) (q_path q)
        (map_option UserCallback (q_callback q)) (q_body q) (q_context q) ((q_options q)\<lparr>server := srv\<rparr>))" for m
    by (rule sends_proceed) simp
  show ?thesis
    by (simp add: callbackConnect_def Let_def a b split: sum.splits json.splits)
qed

text \<open>
  Claim C10.  A call of \<^verbatim>\<open>createHTTPQuery\<close> that leaves the body out uses the empty
  dictionary.  On a connected client it sends exactly one request, the caller's, with
  payload \<^verbatim>\<open>{}\<close>, \<^verbatim>\<open>Content-Type: application/json\<close> and \<^verbatim>\<open>Content-Length: 2\<close>.  On a
  client that is not connected it sends the bootstrap request and binds the query, with
  the empty dictionary as body, to the handshake; and every request the handshake sends
  for a query with that body carries the same payload and headers.
\<close>

theorem omitted_body_is_empty_mapping:
  "(connected c \<longrightarrow>
      (\<exists>rq. sends (createHTTPQuery e c qid m p cb None ctx opts) = [rq]
           \<and> carries_empty_mapping rq \<and> s_method rq = m \<and> s_finished rq = map_option UserCallback cb))
   \<and> (\<not> connected c \<longrightarrow>
      (\<exists>rq q. sends (createHTTPQuery e c qid m p cb None ctx opts) = [rq]
           \<and> s_finished rq = Some (ConnectCallback q) \<and> q_body q = BDict []
           \<and> q_method q = m \<and> q_path q = p \<and> q_callback q = cb))
   \<and> (q_body q = BDict [] \<longrightarrow>
      list_all carries_empty_mapping (sends (callbackConnect e c qid q params err srv)))"
proof (intro conjI impI)
  assume "connected c"
  then show "\<exists>rq. sends (createHTTPQuery e c qid m p cb None ctx opts) = [rq]
           \<and> carries_empty_mapping rq \<and> s_method rq = m \<and> s_finished rq = map_option UserCallback cb"
    using executeHTTPQuery_carries by (simp add: createHTTPQuery_def Let_def)
next
  let ?q = "\<lparr>q_method = m, q_path = p, q_callback = cb, q_body = BDict [],
              q_context = (case ctx of None \<Rightarrow> empty_context | Some x \<Rightarrow> x), q_options = opts\<rparr>"
  assume "\<not> connected c"
  then have "createHTTPQuery e c qid m p cb None ctx opts
      = executeHTTPQuery e c qid ''GET'' ''/version'' (Some (ConnectCallback ?q))
          (BDict []) empty_context (default_options\<lparr>server := server opts, timeout := Some 5\<rparr>)"
    by (simp add: createHTTPQuery_def connect_def Let_def)
  with executeHTTPQuery_carries[of e c qid "''GET''" "''/version''" "Some (ConnectCallback ?q)"]
  obtain rq where "sends (createHTTPQuery e c qid m p cb None ctx opts) = [rq]"
    "s_finished rq = Some (ConnectCallback ?q)" by auto
  moreover have "q_body ?q = BDict [] \<and> q_method ?q = m \<and> q_path ?q = p \<and> q_callback ?q = cb" by simp
  ultimately show "\<exists>rq q. sends (createHTTPQuery e c qid m p cb None ctx opts) = [rq]
           \<and> s_finished rq = Some (ConnectCallback q) \<and> q_body q = BDict []
           \<and> q_method q = m \<and> q_path q = p \<and> q_callback q = cb"
    by blast
next
  assume b: "q_body q = BDict []"
  from callbackConnect_sends[of e c qid q params err srv]
  show "list_all carries_empty_mapping (sends (callbackConnect e c qid q params err srv))"
  proof
    assume "sends (callbackConnect e c qid q params err srv) = []"
    then show ?thesis by simp
  next
    assume "sends (callbackConnect e c qid q params err srv)
     = sends (executeHTTPQuery e (c\<lparr>connected := True\<rparr>) qid (q_method q) (q_path q)
        (map_option UserCallback (q_callback q)) (q_body q) (q_context q) ((q_options q)\<lparr>server := srv\<rparr>))"
    with b executeHTTPQuery_carries[of e "c\<lparr>connected := True\<rparr>" qid "q_method q" "q_path q"
        "map_option UserCallback (q_callback q)" "q_context q" "(q_options q)\<lparr>server := srv\<rparr>"]
    show ?thesis by auto
  qed
qed

theorem omitted_body_witness:
  "connected (client0\<lparr>connected := True\<rparr>)
   \<and> map s_payload (sends (createHTTPQuery dev_env (client0\<lparr>connected := True\<rparr>) ''q1'' ''POST''
        ''/projects'' (Some 7) None None default_options)) = [Some (Buffer ''{}'')]
   \<and> map s_headers (sends (createHTTPQuery dev_env (client0\<lparr>connected := True\<rparr>) ''q1'' ''POST''
        ''/projects'' (Some 7) None None default_options))
      = [[(''User-Agent'', ''GNS3 QT Client v2.0.0dev1''), (''Content-Type'', ''application/json''),
          (''Content-Length'', ''2'')]]
   \<and> \<not> connected client0
   \<and> map s_url (sends (createHTTPQuery dev_env client0 ''q1'' ''POST'' ''/projects'' (Some 7) None None
        default_options)) = [''http://localhost:3080/v2/version'']
   \<and> q_body query0 = BDict []
   \<and> list_all carries_empty_mapping
        (sends (callbackConnect dev_env client0 ''q1'' query0
           (JObject [(''version'', JString ''2.0.0dev1''), (''local'', JBool True)]) False None))
   \<and> length (sends (callbackConnect dev_env client0 ''q1'' query0
           (JObject [(''version'', JString ''2.0.0dev1''), (''local'', JBool True)]) False None)) = 1"
proof -
  let ?c = "client0\<lparr>connected := True\<rparr>"
  note t = omitted_body_is_empty_mapping[where c="?c" and e=dev_env and qid="''q1''" and m="''POST''" and p="''/projects''"
      and cb="Some 7" and ctx=None and opts=default_options and q=query0
      and params="JObject [(''version'', JString ''2.0.0dev1''), (''local'', JBool True)]"
      and err=False and srv=None]
  have c1: "connected ?c" by simp
  have b: "q_body query0 = BDict []" by (simp add: query0_def)
  have p: "map s_payload (sends (createHTTPQuery dev_env ?c ''q1'' ''POST''
        ''/projects'' (Some 7) None None default_options)) = [Some (Buffer ''{}'')]"
    using t c1 by (auto simp: carries_empty_mapping_def)
  have h: "map s_headers (sends (createHTTPQuery dev_env ?c ''q1'' ''POST''
        ''/projects'' (Some 7) None None default_options))
      = [[(''User-Agent'', ''GNS3 QT Client v2.0.0dev1''), (''Content-Type'', ''application/json''),
          (''Content-Length'', ''2'')]]"
    by (simp add: createHTTPQuery_def executeHTTPQuery_empty_dict client0_def dev_env_def addAuth_def truthy_def
          setRawHeader_def)
  have n: "\<not> connected client0" by (simp add: client0_def)
  have u: "map s_url (sends (createHTTPQuery dev_env client0 ''q1'' ''POST'' ''/projects'' (Some 7) None None
        default_options)) = [''http://localhost:3080/v2/version'']"
    by (simp add: createHTTPQuery_def connect_def executeHTTPQuery_empty_dict client0_def dev_env_def
          request_url_def url_host_def truthy_def rsplit_last_head_def str_int_def digit_char_def Let_def)
  from omitted_body_is_empty_mapping[where c="client0" and e=dev_env and qid="''q1''" and m="''POST''" and p="''/projects''"
      and cb="Some 7" and ctx=None and opts=default_options and q=query0
      and params="JObject [(''version'', JString ''2.0.0dev1''), (''local'', JBool True)]"
      and err=False and srv=None] b
  have l2: "list_all carries_empty_mapping
        (sends (callbackConnect dev_env client0 ''q1'' query0
           (JObject [(''version'', JString ''2.0.0dev1''), (''local'', JBool True)]) False None))"
    by blast
  have len: "length (sends (callbackConnect dev_env client0 ''q1'' query0
           (JObject [(''version'', JString ''2.0.0dev1''), (''local'', JBool True)]) False None)) = 1"
    by (simp add: callbackConnect_def py_contains_def py_getitem_def dev_env_def sends_proceed
          query0_def executeHTTPQuery_empty_dict)
  from c1 p h n u b l2 len show ?thesis by blast
qed

subsection \<open>The scanner on a text that is extended\<close>

text \<open>A value that the scanner reads from a text, other than a bare number, is read
  unchanged when more text is appended; a bare number may grow.\<close>

lemma takeWhile_extend: "dropWhile P s \<noteq> [] \<Longrightarrow> takeWhile P (s @ t) = takeWhile P s"
  by (induction s) auto

lemma dropWhile_extend: "dropWhile P s \<noteq> [] \<Longrightarrow> dropWhile P (s @ t) = dropWhile P s @ t"
  by (induction s) auto

lemma skip_ws_extend: "skip_ws s \<noteq> [] \<Longrightarrow> skip_ws (s @ t) = skip_ws s @ t"
  by (simp add: skip_ws_def dropWhile_extend)

lemma skip_ws_extend_Cons: "skip_ws s = c # r \<Longrightarrow> skip_ws (s @ t) = c # r @ t"
  using skip_ws_extend[of s t] by simp

lemma match_int_part_extend:
  assumes "match_int_part s = Some (ip, r)" and "r \<noteq> []"
  shows "match_int_part (s @ t) = Some (ip, r @ t)"
  using assms
  by (cases s) (auto simp: match_int_part_def takeWhile_extend dropWhile_extend split: if_splits)

lemma match_frac_extend:
  assumes "match_frac s = (fp, r)" and "r \<noteq> []" and "fp = [] \<longrightarrow> hd r \<noteq> CHR ''.''"
  shows "match_frac (s @ t) = (fp, r @ t)"
proof (cases s)
  case Nil
  with assms show ?thesis by (simp add: match_frac_def)
next
  case (Cons c s1)
  show ?thesis
  proof (cases s1)
    case Nil
    with Cons assms show ?thesis by (auto simp: match_frac_def split: list.splits)
  next
    case (Cons d s2)
    with \<open>s = c # s1\<close> assms show ?thesis
      by (auto simp: match_frac_def takeWhile_extend dropWhile_extend split: if_splits)
  qed
qed

lemma match_sign_extend:
  "s \<noteq> [] \<Longrightarrow> match_sign s = (sg, r) \<Longrightarrow> match_sign (s @ t) = (sg, r @ t)"
  by (cases s) (auto simp: match_sign_def split: if_splits)

lemma match_exp_extend:
  assumes "match_exp s = (ep, r)" and "r \<noteq> []" and "ep = [] \<longrightarrow> hd r \<noteq> CHR ''e'' \<and> hd r \<noteq> CHR ''E''"
  shows "match_exp (s @ t) = (ep, r @ t)"
proof (cases s)
  case Nil
  with assms show ?thesis by (simp add: match_exp_def)
next
  case (Cons c s1)
  show ?thesis
  proof (cases "c = CHR ''e'' \<or> c = CHR ''E''")
    case False
    with Cons assms show ?thesis by (auto simp: match_exp_def)
  next
    case True
    show ?thesis
    proof (cases "ep = []")
      case True
      with assms Cons \<open>c = CHR ''e'' \<or> c = CHR ''E''\<close> have "r = s"
        by (auto simp: match_exp_def split: prod.splits list.splits if_splits)
      with True assms(3) Cons \<open>c = CHR ''e'' \<or> c = CHR ''E''\<close> show ?thesis by auto
    next
      case False
      obtain sg u where sg: "match_sign s1 = (sg, u)" by (cases "match_sign s1")
      with False assms Cons True obtain d r' where u: "u = d # r'" "is_digit d"
        "ep = c # sg @ d # takeWhile is_digit r'" "r = dropWhile is_digit r'"
        by (auto simp: match_exp_def split: list.splits if_splits)
      from sg u have "s1 \<noteq> []" by (auto simp: match_sign_def)
      from match_sign_extend[OF this sg, of t] u
      have "match_sign (s1 @ t) = (sg, d # r' @ t)" by simp
      with u assms(2) Cons True show ?thesis
        by (auto simp: match_exp_def takeWhile_extend dropWhile_extend)
    qed
  qed
qed

lemma match_number_parts:
  assumes "match_number s = Some (v, r)"
  obtains neg s1 ip s2 fp s3 ep where
    "(case s of c # r \<Rightarrow> if c = CHR ''-'' then (True, r) else (False, s) | [] \<Rightarrow> (False, s)) = (neg, s1)"
    "match_int_part s1 = Some (ip, s2)" "match_frac s2 = (fp, s3)" "match_exp s3 = (ep, r)"
    "v = (if fp = [] \<and> ep = [] then JInt (if neg then - int (nat_of_digits ip) else int (nat_of_digits ip))
          else JFloat ((if neg then ''-'' else []) @ ip @ fp @ ep))"
proof -
  obtain neg s1 where ns: "(case s of c # r \<Rightarrow> if c = CHR ''-'' then (True, r) else (False, s) | [] \<Rightarrow> (False, s)) = (neg, s1)"
    by (cases "(case s of c # r \<Rightarrow> if c = CHR ''-'' then (True, r) else (False, s) | [] \<Rightarrow> (False, s))") auto
  from assms ns obtain ip s2 where ip: "match_int_part s1 = Some (ip, s2)"
    by (auto simp: match_number_def split: option.splits)
  obtain fp s3 where fp: "match_frac s2 = (fp, s3)" by (cases "match_frac s2") auto
  obtain ep s4 where ep: "match_exp s3 = (ep, s4)" by (cases "match_exp s3") auto
  from assms ns ip fp ep have "r = s4"
    and "v = (if fp = [] \<and> ep = [] then JInt (if neg then - int (nat_of_digits ip) else int (nat_of_digits ip))
          else JFloat ((if neg then ''-'' else []) @ ip @ fp @ ep))"
    by (auto simp: match_number_def split: if_splits)
  with ns ip fp ep that show ?thesis by blast
qed

lemma match_number_intro:
  assumes "(case s of c # r \<Rightarrow> if c = CHR ''-'' then (True, r) else (False, s) | [] \<Rightarrow> (False, s)) = (neg, s1)"
    "match_int_part s1 = Some (ip, s2)" "match_frac s2 = (fp, s3)" "match_exp s3 = (ep, r)"
  shows "match_number s = Some ((if fp = [] \<and> ep = [] then JInt (if neg then - int (nat_of_digits ip) else int (nat_of_digits ip))
          else JFloat ((if neg then ''-'' else []) @ ip @ fp @ ep)), r)"
  using assms by (simp add: match_number_def)

lemma match_number_bare: "match_number s = Some (v, r) \<Longrightarrow> bare_number v"
  by (erule match_number_parts) (simp add: bare_number_def)

lemma match_number_first:
  assumes "match_number s = Some (v, r)"
  shows "\<exists>c s'. s = c # s' \<and> (is_digit c \<or> (c = CHR ''-'' \<and> s' \<noteq> [] \<and> is_digit (hd s')))"
proof -
  from assms obtain neg s1 ip s2 where
    ns: "(case s of c # r \<Rightarrow> if c = CHR ''-'' then (True, r) else (False, s) | [] \<Rightarrow> (False, s)) = (neg, s1)"
    and ip: "match_int_part s1 = Some (ip, s2)"
    by (rule match_number_parts)
  from ip obtain d s1' where s1: "s1 = d # s1'" "is_digit d"
    by (cases s1) (auto simp: match_int_part_def is_digit_def split: if_splits)
  from ns s1 show ?thesis by (cases s) (auto split: if_splits)
qed

lemma sign_split_extend:
  assumes "(case s of c # r \<Rightarrow> if c = CHR ''-'' then (True, r) else (False, s) | [] \<Rightarrow> (False, s)) = (neg, s1)"
      and "s \<noteq> []"
  shows "(case s @ t of c # r \<Rightarrow> if c = CHR ''-'' then (True, r) else (False, s @ t) | [] \<Rightarrow> (False, s @ t)) = (neg, s1 @ t)"
  using assms by (cases s) (auto split: if_splits)

lemma match_number_extend:
  assumes "match_number s = Some (v, r)" and "after_number r"
  shows "match_number (s @ t) = Some (v, r @ t)"
proof -
  from assms(1) obtain neg s1 ip s2 fp s3 ep where
    ns: "(case s of c # r \<Rightarrow> if c = CHR ''-'' then (True, r) else (False, s) | [] \<Rightarrow> (False, s)) = (neg, s1)"
    and ip: "match_int_part s1 = Some (ip, s2)" and fp: "match_frac s2 = (fp, s3)"
    and ep: "match_exp s3 = (ep, r)"
    and v: "v = (if fp = [] \<and> ep = [] then JInt (if neg then - int (nat_of_digits ip) else int (nat_of_digits ip))
          else JFloat ((if neg then ''-'' else []) @ ip @ fp @ ep))"
    by (rule match_number_parts)
  from assms(2) have r: "r \<noteq> []" "hd r \<noteq> CHR ''.''" "hd r \<noteq> CHR ''e''" "hd r \<noteq> CHR ''E''"
    by (simp_all add: after_number_def)
  have s3r: "s3 = ep @ r" by (rule match_exp_split[OF ep])
  have s2r: "s2 = fp @ s3" by (rule match_frac_split[OF fp])
  from s3r r have s3: "s3 \<noteq> []" by simp
  from s2r s3 have s2: "s2 \<noteq> []" by simp
  from match_number_first[OF assms(1)] have s: "s \<noteq> []" by auto
  have e': "match_exp (s3 @ t) = (ep, r @ t)"
    using match_exp_extend[OF ep r(1)] r by simp
  have hd3: "fp = [] \<longrightarrow> hd s3 \<noteq> CHR ''.''"
  proof
    assume "fp = []"
    show "hd s3 \<noteq> CHR ''.''"
    proof (cases "ep = []")
      case True
      with s3r r show ?thesis by simp
    next
      case False
      with ep have "hd s3 = CHR ''e'' \<or> hd s3 = CHR ''E''"
        by (cases s3) (auto simp: match_exp_def split: if_splits)
      then show ?thesis by auto
    qed
  qed
  have f': "match_frac (s2 @ t) = (fp, s3 @ t)"
    by (rule match_frac_extend[OF fp s3 hd3])
  have i': "match_int_part (s1 @ t) = Some (ip, s2 @ t)"
    by (rule match_int_part_extend[OF ip s2])
  from match_number_intro[OF sign_split_extend[OF ns s] i' f' e'] v show ?thesis by simp
qed

lemma match_int_part_extend_some:
  "match_int_part s = Some (ip, r) \<Longrightarrow> \<exists>ip' r'. match_int_part (s @ t) = Some (ip', r')"
  by (cases s) (auto simp: match_int_part_def split: if_splits)

lemma match_number_extend_some:
  assumes "match_number s = Some (v, r)"
  shows "\<exists>v' r'. match_number (s @ t) = Some (v', r') \<and> bare_number v'"
proof -
  from assms obtain neg s1 ip s2 where
    ns: "(case s of c # r \<Rightarrow> if c = CHR ''-'' then (True, r) else (False, s) | [] \<Rightarrow> (False, s)) = (neg, s1)"
    and ip: "match_int_part s1 = Some (ip, s2)"
    by (rule match_number_parts)
  from match_number_first[OF assms] have s: "s \<noteq> []" by auto
  from match_int_part_extend_some[OF ip, of t] obtain ip' r' where
    i': "match_int_part (s1 @ t) = Some (ip', r')" by blast
  obtain fp s3 where fp: "match_frac r' = (fp, s3)" by (cases "match_frac r'")
  obtain ep s4 where ep: "match_exp s3 = (ep, s4)" by (cases "match_exp s3")
  from match_number_intro[OF sign_split_extend[OF ns s] i' fp ep]
  obtain v' where "match_number (s @ t) = Some (v', s4)" by blast
  with match_number_bare[OF this] show ?thesis by blast
qed

lemma prepend_eq_Some: "prepend p r = Some (t, rest) \<longleftrightarrow> (\<exists>t'. r = Some (t', rest) \<and> t = p @ t')"
  by (cases r) (auto simp: prepend_def)

lemma ahead_Some:
  "low_surrogate_ahead s = Some (lo, r) \<longleftrightarrow>
     (\<exists>h1 h2 h3 h4. s = CHR 0x5C # CHR ''u'' # h1 # h2 # h3 # h4 # r \<and> hex4 h1 h2 h3 h4 = Some lo
        \<and> is_low_surrogate lo)"
  by (auto simp: low_surrogate_ahead_def split: list.splits option.splits if_splits)

lemma ahead_extend_Some:
  "low_surrogate_ahead s = Some (lo, r) \<Longrightarrow> low_surrogate_ahead (s @ t) = Some (lo, r @ t)"
  unfolding ahead_Some by auto

lemma short_case: "length hs < 4 \<Longrightarrow> (case hs of h1 # h2 # h3 # h4 # s'' \<Rightarrow> f h1 h2 h3 h4 s'' | _ \<Rightarrow> None) = None"
  by (auto split: list.splits)

lemma scanstring_short_escape:
  assumes "length s < 6" and "prefix s (CHR 0x5C # CHR ''u'' # rest)"
  shows "scanstring s = None"
proof (cases s)
  case Nil
  then show ?thesis by simp
next
  case (Cons b s1)
  with assms(2) have b: "b = CHR 0x5C" and p1: "prefix s1 (CHR ''u'' # rest)" by auto
  show ?thesis
  proof (cases s1)
    case Nil
    with Cons b show ?thesis by simp
  next
    case (Cons u hs)
    with p1 have u: "u = CHR ''u''" by auto
    from assms(1) \<open>s = b # s1\<close> Cons have "length hs < 4" by simp
    from short_case[OF this] show ?thesis
      unfolding \<open>s = b # s1\<close> Cons b u by simp
  qed
qed

lemma ahead_extend_None:
  assumes "low_surrogate_ahead s = None" and "scanstring s = Some x"
  shows "low_surrogate_ahead (s @ t) = None"
proof (rule ccontr)
  assume "low_surrogate_ahead (s @ t) \<noteq> None"
  then obtain lo r where "low_surrogate_ahead (s @ t) = Some (lo, r)" by auto
  then obtain h1 h2 h3 h4 where
    st: "s @ t = CHR 0x5C # CHR ''u'' # h1 # h2 # h3 # h4 # r" and
    hx: "hex4 h1 h2 h3 h4 = Some lo" "is_low_surrogate lo"
    unfolding ahead_Some by blast
  show False
  proof (cases "length s < 6")
    case True
    have "prefix s (s @ t)" by simp
    with st have "prefix s (CHR 0x5C # CHR ''u'' # h1 # h2 # h3 # h4 # r)" by simp
    from scanstring_short_escape[OF True this] assms(2) show False by simp
  next
    case False
    then have "take 6 (s @ t) = take 6 s" by simp
    with st have t6: "take 6 s = [CHR 0x5C, CHR ''u'', h1, h2, h3, h4]" by simp
    have "s = take 6 s @ drop 6 s" by simp
    with t6 have "s = CHR 0x5C # CHR ''u'' # h1 # h2 # h3 # h4 # drop 6 s" by simp
    with hx have "low_surrogate_ahead s = Some (lo, drop 6 s)"
      unfolding ahead_Some by blast
    with assms(1) show False by simp
  qed
qed

lemma ahead_length: "low_surrogate_ahead s = Some (lo, r) \<Longrightarrow> 6 \<le> length s"
  unfolding ahead_Some by auto

lemma scanstring_extend:
  "scanstring s = Some (str, r) \<Longrightarrow> scanstring (s @ t) = Some (str, r @ t)"
proof (induction "length s" arbitrary: s str r rule: less_induct)
  case less
  from less.prems obtain c s0 where s: "s = c # s0" by (cases s) auto
  have IH: "\<And>s' str' r'. length s' \<le> length s0 \<Longrightarrow> scanstring s' = Some (str', r')
              \<Longrightarrow> scanstring (s' @ t) = Some (str', r' @ t)"
    using less.hyps s by simp
  show ?case
  proof (cases "c = CHR 0x22")
    case True
    with less.prems s show ?thesis by simp
  next
    case nq: False
    show ?thesis
    proof (cases "c = CHR 0x5C")
      case False
      with nq less.prems s obtain str' where a: "scanstring s0 = Some (str', r)" "str = [c] @ str'"
        and b: "\<not> byte c < 0x20"
        by (auto simp: prepend_eq_Some split: if_splits)
      from IH[OF _ a(1)] have "scanstring (s0 @ t) = Some (str', r @ t)" by simp
      with nq False a b show ?thesis unfolding s by (simp add: prepend_def)
    next
      case bs: True
      from less.prems nq bs s obtain e s1 where s0: "s0 = e # s1" by (cases s0) auto
      show ?thesis
      proof (cases "e = CHR ''u''")
        case False
        with less.prems nq bs s s0 obtain ch str' where
          a: "unescape e = Some ch" "scanstring s1 = Some (str', r)" "str = [ch] @ str'"
          by (auto simp: prepend_eq_Some split: option.splits)
        from IH[OF _ a(2)] s0 have "scanstring (s1 @ t) = Some (str', r @ t)" by simp
        with nq bs False a show ?thesis unfolding s s0 by (simp add: prepend_def)
      next
        case u: True
        with less.prems nq bs s s0 obtain h1 h2 h3 h4 s2 where s1: "s1 = h1 # h2 # h3 # h4 # s2"
          by (auto split: list.splits)
        with less.prems nq bs s s0 u obtain cp where cp: "hex4 h1 h2 h3 h4 = Some cp"
          by (auto split: option.splits)
        show ?thesis
        proof (cases "is_high_surrogate cp \<and> low_surrogate_ahead s2 \<noteq> None")
          case True
          then obtain lo r0 where ah: "low_surrogate_ahead s2 = Some (lo, r0)" by auto
          with less.prems nq bs s s0 u s1 cp True obtain str' where
            a: "scanstring (drop 6 s2) = Some (str', r)" "str = utf8_encode (join_surrogates cp lo) @ str'"
            by (auto simp: prepend_eq_Some)
          have "length (drop 6 s2) \<le> length s0" using s0 s1 by simp
          from IH[OF this a(1)] ahead_length[OF ah]
          have "scanstring (drop 6 (s2 @ t)) = Some (str', r @ t)" by simp
          with nq bs u cp True ahead_extend_Some[OF ah, of t] a show ?thesis
            unfolding s s0 s1 by (simp add: prepend_def)
        next
          case False
          with less.prems nq bs s s0 u s1 cp obtain str' where
            a: "scanstring s2 = Some (str', r)" "str = utf8_encode cp @ str'"
            by (auto simp: prepend_eq_Some split: option.splits)
          have "length s2 \<le> length s0" using s0 s1 by simp
          from IH[OF this a(1)] have e: "scanstring (s2 @ t) = Some (str', r @ t)" .
          show ?thesis
          proof (cases "is_high_surrogate cp")
            case True
            with False have "low_surrogate_ahead s2 = None" by (cases "low_surrogate_ahead s2") auto
            from ahead_extend_None[OF this a(1)] have "low_surrogate_ahead (s2 @ t) = None" .
            with nq bs u cp True e a show ?thesis
              unfolding s s0 s1 by (simp add: prepend_def)
          next
            case nh: False
            with nq bs u cp e a show ?thesis
              unfolding s s0 s1 by (simp add: prepend_def)
          qed
        qed
      qed
    qed
  qed
qed

lemma parse_key_extend:
  assumes "parse_key s = Some (k, r)" and "r \<noteq> []"
  shows "parse_key (s @ t) = Some (k, r @ t)"
proof -
  from assms(1) obtain c s0 where s: "s = c # s0" "c = CHR 0x22"
    by (cases s) (auto simp: parse_key_def split: if_splits)
  with assms(1) obtain r1 where r1: "scanstring s0 = Some (k, r1)"
    by (auto simp: parse_key_def split: option.splits list.splits if_splits)
  with assms(1) s obtain d r2 where r2: "skip_ws r1 = d # r2" "d = CHR '':''" "r = skip_ws r2"
    by (auto simp: parse_key_def split: list.splits if_splits)
  from r2 assms(2) have "skip_ws (r2 @ t) = r @ t" by (simp add: skip_ws_extend)
  with scanstring_extend[OF r1, of t] skip_ws_extend_Cons[OF r2(1), of t] r2 s
  show ?thesis by (simp add: parse_key_def)
qed

lemma take_lit:
  assumes "take n s = lit" and "length lit = n"
  shows "take n (s @ t) = lit" and "drop n (s @ t) = drop n s @ t"
proof -
  from assms have "n \<le> length s" by (metis length_take min.cobounded1)
  then show "take n (s @ t) = lit" "drop n (s @ t) = drop n s @ t" using assms by simp_all
qed

lemma match_literal_extend:
  assumes "match_literal s = Some (v, r)"
  shows "match_literal (s @ t) = Some (v, r @ t)"
proof -
  have len: "length ''null'' = 4" "length ''true'' = 4" "length ''false'' = 5" "length ''NaN'' = 3"
    "length ''Infinity'' = 8" "length ''-Infinity'' = 9" by simp_all
  have neq: "\<And>n lit. take n (s @ t) = lit \<Longrightarrow> length lit = n \<Longrightarrow> n \<le> length s \<Longrightarrow> take n s = lit"
    by simp
  consider (null) "take 4 s = ''null''"
    | (true) "take 4 s \<noteq> ''null''" "take 4 s = ''true''"
    | (false) "take 4 s \<noteq> ''null''" "take 4 s \<noteq> ''true''" "take 5 s = ''false''"
    | (nan) "take 4 s \<noteq> ''null''" "take 4 s \<noteq> ''true''" "take 5 s \<noteq> ''false''" "take 3 s = ''NaN''"
    | (inf) "take 4 s \<noteq> ''null''" "take 4 s \<noteq> ''true''" "take 5 s \<noteq> ''false''" "take 3 s \<noteq> ''NaN''"
        "take 8 s = ''Infinity''"
    | (ninf) "take 4 s \<noteq> ''null''" "take 4 s \<noteq> ''true''" "take 5 s \<noteq> ''false''" "take 3 s \<noteq> ''NaN''"
        "take 8 s \<noteq> ''Infinity''" "take 9 s = ''-Infinity''"
    using assms by (auto simp: match_literal_def split: if_splits)
  then show ?thesis
  proof cases
    case null
    with assms take_lit[OF null len(1), of t] show ?thesis by (simp add: match_literal_def)
  next
    case true
    then have c: "hd s = CHR ''t''" by (cases s) auto
    then have "take 4 (s @ t) \<noteq> ''null''" using true by (cases s) auto
    with assms true take_lit[OF true(2) len(2), of t] show ?thesis by (simp add: match_literal_def)
  next
    case false
    then have c: "hd s = CHR ''f''" by (cases s) auto
    then have "take 4 (s @ t) \<noteq> ''null''" "take 4 (s @ t) \<noteq> ''true''" using false by (cases s; auto)+
    with assms false take_lit[OF false(3) len(3), of t] show ?thesis by (simp add: match_literal_def)
  next
    case nan
    then have c: "hd s = CHR ''N''" by (cases s) auto
    then have "take 4 (s @ t) \<noteq> ''null''" "take 4 (s @ t) \<noteq> ''true''" "take 5 (s @ t) \<noteq> ''false''"
      using nan by (cases s; auto)+
    with assms nan take_lit[OF nan(4) len(4), of t] show ?thesis by (simp add: match_literal_def)
  next
    case inf
    then have c: "hd s = CHR ''I''" by (cases s) auto
    then have "take 4 (s @ t) \<noteq> ''null''" "take 4 (s @ t) \<noteq> ''true''" "take 5 (s @ t) \<noteq> ''false''"
      "take 3 (s @ t) \<noteq> ''NaN''"
      using inf by (cases s; auto)+
    with assms inf take_lit[OF inf(5) len(5), of t] show ?thesis by (simp add: match_literal_def)
  next
    case ninf
    then have c: "hd s = CHR ''-''" by (cases s) auto
    then have "take 4 (s @ t) \<noteq> ''null''" "take 4 (s @ t) \<noteq> ''true''" "take 5 (s @ t) \<noteq> ''false''"
      "take 3 (s @ t) \<noteq> ''NaN''" "take 8 (s @ t) \<noteq> ''Infinity''"
      using ninf by (cases s; auto)+
    with assms ninf take_lit[OF ninf(6) len(6), of t] show ?thesis by (simp add: match_literal_def)
  qed
qed

lemma number_not_literal:
  assumes "\<exists>c s'. s = c # s' \<and> (is_digit c \<or> (c = CHR ''-'' \<and> s' \<noteq> [] \<and> is_digit (hd s')))"
  shows "match_literal (s @ t) = None"
proof -
  from assms obtain c s' where s: "s = c # s'" and
    d: "is_digit c \<or> (c = CHR ''-'' \<and> s' \<noteq> [] \<and> is_digit (hd s'))" by blast
  from d show ?thesis
  proof
    assume "is_digit c"
    with s show ?thesis by (auto simp: match_literal_def is_digit_def)
  next
    assume a: "c = CHR ''-'' \<and> s' \<noteq> [] \<and> is_digit (hd s')"
    then obtain d r where "s' = d # r" "is_digit d" by (cases s') auto
    with s a show ?thesis by (auto simp: match_literal_def is_digit_def)
  qed
qed

lemma match_number_None:
  "\<not> is_digit c \<Longrightarrow> c \<noteq> CHR ''-'' \<Longrightarrow> match_number (c # r) = None"
  by (simp add: match_number_def match_int_part_def is_digit_def)

lemma step_Expect_extend:
  assumes st: "step (ExpectValue K) s = Some (st', s')"
      and ne: "(\<exists>K'. st' = ExpectValue K') \<longrightarrow> s' \<noteq> []"
      and nm: "\<forall>n. st' = AfterValue n K \<and> bare_number n \<longrightarrow> after_number s'"
  shows "step (ExpectValue K) (s @ t) = Some (st', s' @ t)"
proof -
  from st obtain c r where s: "s = c # r" by (cases s) (auto simp: step.simps)
  note step.simps [simp]
  consider (str) "c = CHR 0x22" | (obj) "c = CHR ''{''" | (arr) "c = CHR ''[''"
    | (other) "c \<noteq> CHR 0x22" "c \<noteq> CHR ''{''" "c \<noteq> CHR ''[''" by blast
  then show ?thesis
  proof cases
    case str
    with st s obtain x where "scanstring r = Some (x, s')" "st' = AfterValue (JString x) K"
      by (auto split: option.splits)
    with scanstring_extend[OF this(1), of t] str s show ?thesis by simp
  next
    case obj
    with st s obtain d r' where d: "skip_ws r = d # r'" by (auto split: list.splits)
    note d' = skip_ws_extend_Cons[OF d, of t]
    show ?thesis
    proof (cases "d = CHR ''}''")
      case True
      with st s obj d d' show ?thesis by auto
    next
      case False
      with st s obj d obtain k where k: "parse_key (d # r') = Some (k, s')"
        "st' = ExpectValue (InObject [] k # K)"
        by (auto split: option.splits)
      with ne have "s' \<noteq> []" by simp
      from parse_key_extend[OF k(1) this, of t] k False obj s d' show ?thesis by simp
    qed
  next
    case arr
    with st s obtain d r' where d: "skip_ws r = d # r'" by (auto split: list.splits)
    note d' = skip_ws_extend_Cons[OF d, of t]
    with st s arr d show ?thesis by (auto split: if_splits)
  next
    case other
    show ?thesis
    proof (cases "match_literal s")
      case (Some p)
      then obtain v r' where p: "match_literal s = Some (v, r')" by (cases p) auto
      with st s other have x: "st' = AfterValue v K" "s' = r'" by auto
      from match_literal_extend[OF p, of t] x other s show ?thesis by simp
    next
      case None
      with st s other obtain v where m: "match_number s = Some (v, s')" "st' = AfterValue v K"
        by (auto split: option.splits)
      from match_number_bare[OF m(1)] m(2) nm have "after_number s'" by simp
      from match_number_extend[OF m(1) this, of t] have e: "match_number (s @ t) = Some (v, s' @ t)" .
      from match_number_first[OF m(1)] have "match_literal (s @ t) = None"
        by (rule number_not_literal)
      with e m(2) other s show ?thesis by simp
    qed
  qed
qed

lemma step_After_extend:
  assumes st: "step (AfterValue v K) s = Some (st', s')"
      and ne: "(\<exists>K'. st' = ExpectValue K') \<longrightarrow> s' \<noteq> []"
  shows "step (AfterValue v K) (s @ t) = Some (st', s' @ t)"
proof (cases K)
  case Nil
  with st show ?thesis by (simp add: step.simps)
next
  case (Cons f K')
  note step.simps [simp]
  from st Cons obtain c r where c: "skip_ws s = c # r"
    by (cases f; cases "skip_ws s") auto
  note c' = skip_ws_extend_Cons[OF c, of t]
  show ?thesis
  proof (cases f)
    case (InArray acc)
    show ?thesis
    proof (cases "c = CHR '']''")
      case True
      with st Cons InArray c c' show ?thesis by simp
    next
      case False
      with st Cons InArray c have x: "c = CHR '',''" "s' = skip_ws r" "st' = ExpectValue (InArray (acc @ [v]) # K')"
        by (auto split: if_splits)
      with ne have "skip_ws r \<noteq> []" by simp
      from skip_ws_extend[OF this, of t] x False Cons InArray c' show ?thesis by simp
    qed
  next
    case (InObject kvs k)
    show ?thesis
    proof (cases "c = CHR ''}''")
      case True
      with st Cons InObject c c' show ?thesis by simp
    next
      case False
      with st Cons InObject c obtain k' where x: "c = CHR '',''" "parse_key (skip_ws r) = Some (k', s')"
        "st' = ExpectValue (InObject (AList.update k v kvs) k' # K')"
        by (auto split: if_splits option.splits)
      with ne have s': "s' \<noteq> []" by simp
      from x(2) have "skip_ws r \<noteq> []" by (auto simp: parse_key_def)
      from skip_ws_extend[OF this, of t] parse_key_extend[OF x(2) s', of t] x False Cons InObject c'
      show ?thesis by simp
    qed
  qed
qed

lemma run_unfold:
  "(\<nexists>w. st = AfterValue w []) \<Longrightarrow>
     run st s = (case step st s of None \<Rightarrow> None | Some (st', s') \<Rightarrow> run st' s')"
  by (cases st; cases "stack_of st") (auto simp: run_Expect run_After)

lemma run_Expect_Nil [simp]: "run (ExpectValue K) [] = None"
  by (simp add: run_Expect step.simps)

lemma run_After_Nil [simp]: "run (AfterValue v (f # K)) [] = None"
  by (cases f) (simp_all add: run_After step.simps skip_ws_def)

lemma step_from_After:
  assumes "step (AfterValue v (f # K)) s = Some (st', s')"
  shows "(\<exists>w. st' = AfterValue w K \<and> \<not> bare_number w) \<or> (\<exists>g. st' = ExpectValue (g # K))"
proof -
  from assms obtain c r where c: "skip_ws s = c # r"
    by (cases f; cases "skip_ws s") (auto simp: step.simps)
  show ?thesis
  proof (cases f)
    case (InArray acc)
    with assms c show ?thesis
      by (auto simp: step.simps bare_number_def split: if_splits)
  next
    case (InObject kvs k)
    with assms c show ?thesis
      by (auto simp: step.simps bare_number_def split: if_splits option.splits)
  qed
qed

lemma step_from_Expect:
  assumes "step (ExpectValue K) s = Some (st', s')"
  shows "(\<exists>w. st' = AfterValue w K) \<or> (\<exists>g. st' = ExpectValue (g # K))"
proof -
  from assms obtain c r where s: "s = c # r" by (cases s) (auto simp: step.simps)
  consider (str) "c = CHR 0x22" | (obj) "c = CHR ''{''" | (arr) "c = CHR ''[''"
    | (other) "c \<noteq> CHR 0x22" "c \<noteq> CHR ''{''" "c \<noteq> CHR ''[''" by blast
  then show ?thesis
  proof cases
    case str
    with assms s show ?thesis by (auto simp: step.simps split: option.splits)
  next
    case obj
    with assms s obtain d r' where d: "skip_ws r = d # r'" by (auto simp: step.simps split: list.splits)
    with assms s obj show ?thesis by (auto simp: step.simps split: if_splits option.splits)
  next
    case arr
    with assms s obtain d r' where d: "skip_ws r = d # r'" by (auto simp: step.simps split: list.splits)
    with assms s arr show ?thesis by (auto simp: step.simps split: if_splits)
  next
    case other
    with assms s show ?thesis by (auto simp: step.simps split: option.splits)
  qed
qed

text \<open>A value completed inside an array or object is followed by a delimiter.\<close>

lemma after_value_delimiter:
  assumes "step (AfterValue v (f # K)) s = Some (st', s')"
  shows "after_number s"
proof -
  from assms obtain c r where c: "skip_ws s = c # r" "c = CHR '']'' \<or> c = CHR '','' \<or> c = CHR ''}''"
    by (cases f; cases "skip_ws s") (auto simp: step.simps split: if_splits)
  then have s: "s \<noteq> []" by (auto simp: skip_ws_def)
  have "hd s = c \<or> is_ws (hd s)"
    using c(1) s by (cases s) (auto simp: skip_ws_def split: if_splits)
  with c(2) s show ?thesis by (auto simp: after_number_def is_ws_def)
qed

lemma run_container:
  "run st s = Some (v, r) \<Longrightarrow> stack_of st \<noteq> [] \<Longrightarrow> \<not> bare_number v"
proof (induction "length s" arbitrary: st s rule: less_induct)
  case less
  from less.prems(2) have n: "\<nexists>w. st = AfterValue w []" by auto
  from less.prems(1) run_unfold[OF n] obtain st' s' where
    st: "step st s = Some (st', s')" and r: "run st' s' = Some (v, r)"
    by (auto split: option.splits)
  note IH = less.hyps[OF step_shorter[OF st] r]
  show ?case
  proof (cases st)
    case (ExpectValue K)
    with less.prems(2) obtain f K' where K: "K = f # K'" by (cases K) auto
    from step_from_Expect[OF st[unfolded ExpectValue]] K have "stack_of st' \<noteq> []" by auto
    with IH show ?thesis .
  next
    case (AfterValue w K)
    with less.prems(2) obtain f K' where K: "K = f # K'" by (cases K) auto
    from step_from_After[OF st[unfolded AfterValue K]]
    show ?thesis
    proof
      assume "\<exists>w'. st' = AfterValue w' K' \<and> \<not> bare_number w'"
      then obtain w' where w: "st' = AfterValue w' K'" "\<not> bare_number w'" by blast
      show ?thesis
      proof (cases K')
        case Nil
        with r w show ?thesis by simp
      next
        case (Cons g K'')
        with w IH show ?thesis by simp
      qed
    next
      assume "\<exists>g. st' = ExpectValue (g # K')"
      with IH show ?thesis by auto
    qed
  qed
qed

lemma run_extend:
  "run st s = Some (v, r) \<Longrightarrow> \<not> bare_number v \<Longrightarrow> run st (s @ t) = Some (v, r @ t)"
proof (induction "length s" arbitrary: st s rule: less_induct)
  case less
  show ?case
  proof (cases "\<exists>w. st = AfterValue w []")
    case True
    with less.prems show ?thesis by auto
  next
    case False
    then have n: "\<nexists>w. st = AfterValue w []" by simp
    from less.prems(1) run_unfold[OF n] obtain st' s' where
      st: "step st s = Some (st', s')" and r: "run st' s' = Some (v, r)"
      by (auto split: option.splits)
    note IH = less.hyps[OF step_shorter[OF st] r less.prems(2)]
    have ne: "(\<exists>K'. st' = ExpectValue K') \<longrightarrow> s' \<noteq> []"
      using r by auto
    have "step st (s @ t) = Some (st', s' @ t)"
    proof (cases st)
      case (ExpectValue K)
      have nm: "\<forall>n. st' = AfterValue n K \<and> bare_number n \<longrightarrow> after_number s'"
      proof (intro allI impI)
        fix n assume a: "st' = AfterValue n K \<and> bare_number n"
        show "after_number s'"
        proof (cases K)
          case Nil
          with a r have "v = n" by simp
          with a less.prems(2) show ?thesis by simp
        next
          case (Cons f K')
          with a r run_unfold[of st' s'] obtain st'' s'' where
            "step (AfterValue n (f # K')) s' = Some (st'', s'')"
            by (auto split: option.splits)
          then show ?thesis by (rule after_value_delimiter)
        qed
      qed
      from step_Expect_extend[OF st[unfolded ExpectValue] ne nm] ExpectValue show ?thesis by simp
    next
      case (AfterValue w K)
      from step_After_extend[OF st[unfolded AfterValue] ne] AfterValue show ?thesis by simp
    qed
    with run_unfold[OF n, of "s @ t"] IH show ?thesis by simp
  qed
qed

lemma raw_decode_extend:
  assumes "raw_decode c = Inr (v, i)" and "\<not> bare_number v"
  shows "raw_decode (c @ t) = Inr (v, i)"
proof -
  from assms(1) obtain rest where r: "scan_once c = Some (v, rest)" "i = length c - length rest"
    by (auto simp: raw_decode_def split: option.splits)
  from run_extend[OF r(1)[unfolded scan_once_def] assms(2), of t]
  have "scan_once (c @ t) = Some (v, rest @ t)" by (simp add: scan_once_def)
  moreover from scan_once_shorter[OF r(1)] have "length rest \<le> length c" by simp
  ultimately show ?thesis using r(2) by (simp add: raw_decode_def)
qed

lemma raw_decode_extend_bare:
  assumes "raw_decode c = Inr (v, i)" and "bare_number v"
  shows "\<exists>v' i'. raw_decode (c @ t) = Inr (v', i') \<and> bare_number v'"
proof -
  from assms(1) obtain rest where r: "run (ExpectValue []) c = Some (v, rest)"
    by (auto simp: raw_decode_def scan_once_def split: option.splits)
  then obtain st' s' where st: "step (ExpectValue []) c = Some (st', s')" and r': "run st' s' = Some (v, rest)"
    by (auto simp: run_Expect split: option.splits)
  from step_from_Expect[OF st] have st': "st' = AfterValue v []"
  proof
    assume "\<exists>w. st' = AfterValue w []"
    with r' show ?thesis by auto
  next
    assume "\<exists>g. st' = ExpectValue [g]"
    then have "stack_of st' \<noteq> []" by auto
    from run_container[OF r' this] assms(2) show ?thesis by simp
  qed
  from st obtain ch r0 where c: "c = ch # r0" by (cases c) (auto simp: step.simps)
  have nb: "\<not> (ch = CHR 0x22 \<or> ch = CHR ''{'' \<or> ch = CHR ''['')"
  proof
    assume "ch = CHR 0x22 \<or> ch = CHR ''{'' \<or> ch = CHR ''[''"
    then consider (str) "ch = CHR 0x22" | (obj) "ch = CHR ''{''" | (arr) "ch = CHR ''[''" by blast
    then show False
    proof cases
      case str
      with st st' c assms(2) show False by (auto simp: step.simps bare_number_def split: option.splits)
    next
      case obj
      with st c obtain d r' where d: "skip_ws r0 = d # r'" by (auto simp: step.simps split: list.splits)
      with st st' c obj assms(2) show False
        by (auto simp: step.simps bare_number_def split: if_splits option.splits)
    next
      case arr
      with st c obtain d r' where d: "skip_ws r0 = d # r'" by (auto simp: step.simps split: list.splits)
      with st st' c arr assms(2) show False
        by (auto simp: step.simps bare_number_def split: if_splits)
    qed
  qed
  have "\<exists>v' r'. step (ExpectValue []) (c @ t) = Some (AfterValue v' [], r') \<and> bare_number v'"
  proof (cases "ch = CHR 0x22 \<or> ch = CHR ''{'' \<or> ch = CHR ''[''")
    case True
    with nb show ?thesis by simp
  next
    case False
    show ?thesis
    proof (cases "match_literal c")
      case (Some p)
      then obtain w r1 where p: "match_literal c = Some (w, r1)" by (cases p) auto
      with st st' c False have "w = v" by (auto simp: step.simps)
      with match_literal_extend[OF p, of t] c False assms(2) show ?thesis
        by (auto simp: step.simps)
    next
      case None
      with st st' c False have m: "match_number c = Some (v, s')"
        by (auto simp: step.simps split: option.splits)
      from match_number_extend_some[OF m, of t] obtain v' r1 where
        e: "match_number (c @ t) = Some (v', r1)" "bare_number v'" by blast
      from match_number_first[OF m] have "match_literal (c @ t) = None" by (rule number_not_literal)
      with e c False show ?thesis by (auto simp: step.simps)
    qed
  qed
  then obtain v' r1 where "step (ExpectValue []) (c @ t) = Some (AfterValue v' [], r1)" "bare_number v'"
    by blast
  then have "run (ExpectValue []) (c @ t) = Some (v', r1)" "bare_number v'"
    by (simp_all add: run_Expect)
  then show ?thesis by (auto simp: raw_decode_def scan_once_def)
qed

subsection \<open>Fragmentation of a feed\<close>

lemma lstrip_append_lstrip: "lstrip cs (lstrip cs s @ t) = lstrip cs (s @ t)"
  by (induction s) (auto simp: lstrip_def)

lemma lstrip_nonempty_append: "lstrip cs s \<noteq> [] \<Longrightarrow> lstrip cs (s @ t) = lstrip cs s @ t"
  by (simp add: lstrip_def dropWhile_extend)

lemma decode_stream_lstrip: "decode_stream (lstrip ws_chars s) = decode_stream s"
  by (subst (1 2) decode_stream.simps) (simp add: Let_def)

lemma raw_decode_Nil: "raw_decode [] = Inl ValueError"
  by (simp add: raw_decode_def scan_once_def)

lemma decode_stream_append:
  "decode_stream s = (vs, r) \<Longrightarrow> decode_stream (s @ t) = (ws, r') \<Longrightarrow> \<forall>v \<in> set ws. \<not> bare_number v
     \<Longrightarrow> \<exists>vs'. decode_stream (r @ t) = (vs', r') \<and> ws = vs @ vs'"
proof (induction s arbitrary: vs r ws r' rule: decode_stream.induct)
  case (1 content)
  let ?c = "lstrip ws_chars content"
  have whole: "decode_stream (content @ t) = decode_stream (?c @ t)"
    using decode_stream_lstrip[of "content @ t"] decode_stream_lstrip[of "?c @ t"]
    by (simp add: lstrip_append_lstrip)
  show ?case
  proof (cases "raw_decode ?c")
    case (Inl x)
    with "1.prems"(1) have "vs = []" "r = ?c"
      by (subst (asm) decode_stream.simps, simp add: Let_def)+
    with whole "1.prems"(2) show ?thesis by simp
  next
    case (Inr p)
    obtain a i where p: "p = (a, i)" by (cases p)
    obtain vs0 r0 where d: "decode_stream (drop i ?c) = (vs0, r0)" by (cases "decode_stream (drop i ?c)")
    from "1.prems"(1) Inr p d have vs: "vs = a # vs0" "r = r0"
      by (subst (asm) decode_stream.simps, simp add: Let_def)+
    from Inr p raw_decode_Nil have ne: "?c \<noteq> []" by auto
    then have l: "lstrip ws_chars (?c @ t) = ?c @ t"
      using lstrip_nonempty_append[of ws_chars ?c t] by (simp add: lstrip_def dropWhile_idem)
    from raw_decode_index Inr p have i: "i \<le> length ?c" by blast
    show ?thesis
    proof (cases "bare_number a")
      case True
      from raw_decode_extend_bare[OF _ True, of ?c i t] Inr p obtain a' i' where
        e: "raw_decode (?c @ t) = Inr (a', i')" "bare_number a'" by auto
      obtain ws0 r1 where "decode_stream (drop i' (?c @ t)) = (ws0, r1)"
        by (cases "decode_stream (drop i' (?c @ t))")
      with e(1) l have "decode_stream (?c @ t) = (a' # ws0, r1)"
        by (subst decode_stream.simps) (simp add: Let_def)
      with whole "1.prems"(2) have "a' \<in> set ws" by auto
      with e(2) "1.prems"(3) show ?thesis by blast
    next
      case False
      from raw_decode_extend[OF _ False, of ?c i t] Inr p
      have e: "raw_decode (?c @ t) = Inr (a, i)" by simp
      obtain ws0 r1 where w0: "decode_stream (drop i ?c @ t) = (ws0, r1)"
        by (cases "decode_stream (drop i ?c @ t)")
      with e l i have "decode_stream (?c @ t) = (a # ws0, r1)"
        by (subst decode_stream.simps) (simp add: Let_def)
      with whole "1.prems"(2) have ws: "ws = a # ws0" "r' = r1" by auto
      with "1.prems"(3) have nb: "\<forall>v \<in> set ws0. \<not> bare_number v" by simp
      from "1.IH"[OF refl Inr p[symmetric] d w0 nb]
      obtain vs' where "decode_stream (r0 @ t) = (vs', r1)" "ws0 = vs0 @ vs'" by auto
      with vs ws show ?thesis by simp
    qed
  qed
qed

lemma chunk_outcome:
  assumes "net_error r = 0" and "http_status r = Some st" and "st < 300"
      and "content_type r = Some ''application/json''" and "query_id ctx = Some qid"
      and "utf8_valid bs"
  shows "processDownloadProgress e c (r\<lparr>read_all := bs\<rparr>) callback ctx srv
     = \<lparr>events = map (answer_call callback srv ctx) (fst (decode_stream (pending_text c qid @ bs)))
                  @ (if progress_callback e = Some True then [CancelObserver] else []),
        state = c\<lparr>buffer := (buffer c)(qid \<mapsto> snd (decode_stream (pending_text c qid @ bs)))\<rparr>,
        raised = None\<rparr>"
proof -
  have t: "(case buffer c qid of None \<Rightarrow> bs | Some b \<Rightarrow> b @ bs) = pending_text c qid @ bs"
    by (simp add: pending_text_def split: option.splits)
  obtain vs rest where d: "decode_stream (pending_text c qid @ bs) = (vs, rest)"
    by (cases "decode_stream (pending_text c qid @ bs)")
  show ?thesis
    using assms
    by (simp add: processDownloadProgress_def decode_utf8_def Let_def t d answer_call_def
        del: utf8_valid.simps)
qed

lemma calls_answers [simp]: "filter is_call (map (answer_call callback srv ctx) vs) = map (answer_call callback srv ctx) vs"
  by (induction vs) (simp_all add: answer_call_def)

lemma bare_answers [simp]:
  "list_ex is_bare_number_call (map (answer_call callback srv ctx) vs) = (\<exists>v \<in> set vs. bare_number v)"
  by (induction vs) (auto simp: answer_call_def is_bare_number_call_def)

lemma deliver_chunks:
  assumes "net_error r = 0" and "http_status r = Some st" and "st < 300"
      and "content_type r = Some ''application/json''" and "query_id ctx = Some qid"
  shows "\<forall>b \<in> set (bs # rest). utf8_valid b \<Longrightarrow>
         \<forall>v \<in> set (fst (decode_stream (pending_text c qid @ concat (bs # rest)))). \<not> bare_number v \<Longrightarrow>
         calls (deliver e c (map (\<lambda>b. r\<lparr>read_all := b\<rparr>) (bs # rest)) callback ctx srv)
           = map (answer_call callback srv ctx) (fst (decode_stream (pending_text c qid @ concat (bs # rest))))
         \<and> raised (deliver e c (map (\<lambda>b. r\<lparr>read_all := b\<rparr>) (bs # rest)) callback ctx srv) = None
         \<and> buffer (state (deliver e c (map (\<lambda>b. r\<lparr>read_all := b\<rparr>) (bs # rest)) callback ctx srv))
           = (buffer c)(qid \<mapsto> snd (decode_stream (pending_text c qid @ concat (bs # rest))))"
proof (induction rest arbitrary: bs c)
  case Nil
  then have u: "utf8_valid bs" by simp
  show ?case
    by (simp add: chunk_outcome[OF assms u] calls_def Let_def)
next
  case (Cons b2 rest)
  from Cons.prems(1) have u: "utf8_valid bs" and u2: "\<forall>b \<in> set (b2 # rest). utf8_valid b" by simp_all
  let ?s = "pending_text c qid @ bs"
  let ?t = "concat (b2 # rest)"
  obtain vs r1 where d1: "decode_stream ?s = (vs, r1)" by (cases "decode_stream ?s")
  obtain ws r' where dw: "decode_stream (?s @ ?t) = (ws, r')" by (cases "decode_stream (?s @ ?t)")
  from Cons.prems(2) dw have nb: "\<forall>v \<in> set ws. \<not> bare_number v" by simp
  from decode_stream_append[OF d1 dw nb] obtain vs' where
    d2: "decode_stream (r1 @ ?t) = (vs', r')" and ws: "ws = vs @ vs'" by blast
  let ?c1 = "c\<lparr>buffer := (buffer c)(qid \<mapsto> r1)\<rparr>"
  have p1: "pending_text ?c1 qid = r1" by (simp add: pending_text_def)
  from nb ws have nb': "\<forall>v \<in> set (fst (decode_stream (pending_text ?c1 qid @ concat (b2 # rest)))). \<not> bare_number v"
    using d2 p1 by simp
  define rs where "rs = map (\<lambda>b. r\<lparr>read_all := b\<rparr>) (b2 # rest)"
  have m: "map (\<lambda>b. r\<lparr>read_all := b\<rparr>) (bs # b2 # rest) = r\<lparr>read_all := bs\<rparr> # rs"
    by (simp add: rs_def)
  note IH = Cons.IH[OF u2 nb', unfolded p1 d2, folded rs_def]
  have out1: "processDownloadProgress e c (r\<lparr>read_all := bs\<rparr>) callback ctx srv
     = \<lparr>events = map (answer_call callback srv ctx) vs
                  @ (if progress_callback e = Some True then [CancelObserver] else []),
        state = ?c1, raised = None\<rparr>"
    using chunk_outcome[OF assms u, of e c callback srv] d1 by simp
  have dw': "decode_stream (pending_text c qid @ concat (bs # b2 # rest)) = (ws, r')"
    using dw by simp
  show ?case
    unfolding dw' m
    using IH ws
    by (auto simp add: out1 calls_def Let_def fun_eq_iff)
qed

lemma utf8_valid_append: "utf8_valid a \<Longrightarrow> utf8_valid b \<Longrightarrow> utf8_valid (a @ b)"
proof (induction "length a" arbitrary: a rule: less_induct)
  case less
  show ?case
  proof (cases a)
    case Nil
    with less.prems show ?thesis by simp
  next
    case (Cons c s)
    have IH: "\<And>s'. length s' \<le> length s \<Longrightarrow> utf8_valid s' \<Longrightarrow> utf8_valid (s' @ b)"
      using less.hyps less.prems(2) Cons by simp
    consider (one) "byte c < 0x80"
      | (two) "\<not> byte c < 0x80" "in_range 0xC2 0xDF c"
      | (three) "\<not> byte c < 0x80" "\<not> in_range 0xC2 0xDF c" "in_range 0xE0 0xEF c"
      | (four) "\<not> byte c < 0x80" "\<not> in_range 0xC2 0xDF c" "\<not> in_range 0xE0 0xEF c" "in_range 0xF0 0xF4 c"
      | (bad) "\<not> byte c < 0x80" "\<not> in_range 0xC2 0xDF c" "\<not> in_range 0xE0 0xEF c" "\<not> in_range 0xF0 0xF4 c"
      by blast
    then show ?thesis
    proof cases
      case one
      with less.prems(1) Cons IH[of s] show ?thesis by simp
    next
      case two
      with less.prems(1) Cons obtain c1 s' where s: "s = c1 # s'" by (cases s) auto
      with two less.prems(1) Cons IH[of s'] show ?thesis by simp
    next
      case three
      with less.prems(1) Cons obtain c1 c2 s' where s: "s = c1 # c2 # s'"
        by (cases s; cases "tl s") auto
      with three less.prems(1) Cons IH[of s'] show ?thesis by simp
    next
      case four
      with less.prems(1) Cons obtain c1 c2 c3 s' where s: "s = c1 # c2 # c3 # s'"
        by (cases s; cases "tl s"; cases "tl (tl s)") auto
      with four less.prems(1) Cons IH[of s'] show ?thesis by simp
    next
      case bad
      with less.prems(1) Cons show ?thesis by simp
    qed
  qed
qed

lemma utf8_valid_concat: "\<forall>b \<in> set bs. utf8_valid b \<Longrightarrow> utf8_valid (concat bs)"
  by (induction bs) (simp_all add: utf8_valid_append del: utf8_valid.simps(2))

text \<open>
  Claim C5, as amended.  The bytes of a JSON feed (no error flag, status below 300,
  content type \<^verbatim>\<open>application/json\<close>, a context with a query id) are delivered in one or
  more chunks, each of which decodes as UTF-8 on its own, and the delivery in one chunk
  hands no bare number to the callback.  Then the delivery in chunks invokes the callback
  with the same values, in the same order, as the delivery in one chunk, raises nothing,
  and leaves the same buffer.
\<close>

theorem fragmentation_invariance:
  assumes "net_error r = 0" and "http_status r = Some st" and "st < 300"
      and "content_type r = Some ''application/json''" and "query_id ctx = Some qid"
      and "chunks \<noteq> []" and "\<forall>b \<in> set chunks. utf8_valid b"
      and "\<not> delivers_bare_number
              (processDownloadProgress e c (r\<lparr>read_all := concat chunks\<rparr>) callback ctx srv)"
  shows "calls (deliver e c (map (\<lambda>b. r\<lparr>read_all := b\<rparr>) chunks) callback ctx srv)
           = calls (processDownloadProgress e c (r\<lparr>read_all := concat chunks\<rparr>) callback ctx srv)
       \<and> raised (deliver e c (map (\<lambda>b. r\<lparr>read_all := b\<rparr>) chunks) callback ctx srv) = None
       \<and> buffer (state (deliver e c (map (\<lambda>b. r\<lparr>read_all := b\<rparr>) chunks) callback ctx srv))
           = buffer (state (processDownloadProgress e c (r\<lparr>read_all := concat chunks\<rparr>) callback ctx srv))"
proof -
  from assms(6) obtain bs rest where ch: "chunks = bs # rest" by (cases chunks) auto
  have u: "utf8_valid (concat chunks)" by (rule utf8_valid_concat[OF assms(7)])
  note whole = chunk_outcome[OF assms(1-5) u, of e c callback srv]
  from assms(8) have "\<forall>v \<in> set (fst (decode_stream (pending_text c qid @ concat chunks))). \<not> bare_number v"
    by (simp add: whole delivers_bare_number_def list_ex_append)
  then have nb: "\<forall>v \<in> set (fst (decode_stream (pending_text c qid @ concat (bs # rest)))). \<not> bare_number v"
    unfolding ch .
  from deliver_chunks[OF assms(1-5) assms(7)[unfolded ch] nb, of e callback srv]
  have "calls (deliver e c (map (\<lambda>b. r\<lparr>read_all := b\<rparr>) chunks) callback ctx srv)
           = map (answer_call callback srv ctx) (fst (decode_stream (pending_text c qid @ concat chunks)))
         \<and> raised (deliver e c (map (\<lambda>b. r\<lparr>read_all := b\<rparr>) chunks) callback ctx srv) = None
         \<and> buffer (state (deliver e c (map (\<lambda>b. r\<lparr>read_all := b\<rparr>) chunks) callback ctx srv))
           = (buffer c)(qid \<mapsto> snd (decode_stream (pending_text c qid @ concat chunks)))"
    unfolding ch .
  then show ?thesis
    by (simp add: whole calls_def)
qed

theorem fragmentation_witness:
  "calls (deliver dev_env client0
            (map (\<lambda>b. (chunk_reply [])\<lparr>read_all := b\<rparr>) [''{\"a\": 1} {\"b'', ''\": [2, 3]}''])
            7 ctx1 None)
     = [Call (UserCallback 7) (PJson (JObject [(''a'', JInt 1)])) False None (Some ctx1) None,
        Call (UserCallback 7) (PJson (JObject [(''b'', JArray [JInt 2, JInt 3])])) False None (Some ctx1) None]
   \<and> buffer (state (deliver dev_env client0
            (map (\<lambda>b. (chunk_reply [])\<lparr>read_all := b\<rparr>) [''{\"a\": 1} {\"b'', ''\": [2, 3]}''])
            7 ctx1 None)) ''q1'' = Some []"
proof -
  let ?chunks = "[''{\"a\": 1} {\"b'', ''\": [2, 3]}'']"
  let ?r = "chunk_reply []"
  have g: "net_error ?r = 0" "http_status ?r = Some 200" "(200::int) < 300"
    "content_type ?r = Some ''application/json''" "query_id ctx1 = Some ''q1''" "?chunks \<noteq> []"
    by (simp_all add: chunk_reply_def ctx1_def)
  have u: "\<forall>b \<in> set ?chunks. utf8_valid b" by code_simp
  have c: "concat ?chunks = ''{\"a\": 1} {\"b\": [2, 3]}''" by simp
  have w: "calls (processDownloadProgress dev_env client0 (?r\<lparr>read_all := concat ?chunks\<rparr>) 7 ctx1 None)
     = [Call (UserCallback 7) (PJson (JObject [(''a'', JInt 1)])) False None (Some ctx1) None,
        Call (UserCallback 7) (PJson (JObject [(''b'', JArray [JInt 2, JInt 3])])) False None (Some ctx1) None]"
    unfolding c by code_simp
  have b: "buffer (state (processDownloadProgress dev_env client0 (?r\<lparr>read_all := concat ?chunks\<rparr>) 7 ctx1 None)) ''q1''
     = Some []"
    unfolding c by code_simp
  have nb: "\<not> delivers_bare_number
              (processDownloadProgress dev_env client0 (?r\<lparr>read_all := concat ?chunks\<rparr>) 7 ctx1 None)"
    unfolding c by code_simp
  from fragmentation_invariance[OF g(1-6) u nb] w b show ?thesis by simp
qed

text \<open>The claim as it was stated fails for a bare number: the text \<^verbatim>\<open>12\<close> in one chunk
  is one value, and in the chunks \<^verbatim>\<open>1\<close> and \<^verbatim>\<open>2\<close> it is two.\<close>

theorem split_number_is_delivered_twice:
  "calls (deliver dev_env client0 [chunk_reply ''1'', chunk_reply ''2''] 7 ctx1 None)
     = [Call (UserCallback 7) (PJson (JInt 1)) False None (Some ctx1) None,
        Call (UserCallback 7) (PJson (JInt 2)) False None (Some ctx1) None]
   \<and> calls (processDownloadProgress dev_env client0 (chunk_reply ''12'') 7 ctx1 None)
     = [Call (UserCallback 7) (PJson (JInt 12)) False None (Some ctx1) None]"
  by code_simp

text \<open>A chunk boundary inside a multi-byte character is outside the amended claim: the
  chunk is decoded before it is buffered, and \<^verbatim>\<open>UnicodeDecodeError\<close> leaves the method.\<close>

lemma split_character_raises:
  "raised (deliver dev_env client0
             [chunk_reply [CHR 0x22, CHR 0xC3], chunk_reply [CHR 0xA9, CHR 0x22]] 7 ctx1 None)
     = Some UnicodeDecodeError
   \<and> calls (deliver dev_env client0
             [chunk_reply [CHR 0x22, CHR 0xC3], chunk_reply [CHR 0xA9, CHR 0x22]] 7 ctx1 None) = []
   \<and> calls (processDownloadProgress dev_env client0
             (chunk_reply [CHR 0x22, CHR 0xC3, CHR 0xA9, CHR 0x22]) 7 ctx1 None)
     = [Call (UserCallback 7) (PJson (JString [CHR 0xC3, CHR 0xA9])) False None (Some ctx1) None]"
  by code_simp

end
